(* ===== verification/Prelude.thy ===== *)
theory Prelude
  imports Complex_Main "HOL-Library.Word"
begin

text \<open>
  Shared vocabulary of the development.  Matrix entries of the program are \<open>f32\<close>
  values; the engine is modelled over exact \<open>real\<close> arithmetic, so a vector is a
  \<open>real list\<close> and a matrix is a list of rows, as the row-major \<open>faer::Mat\<close> is read
  row by row.  Machine sizes (\<open>usize\<close>) are \<open>64 word\<close>, pixel channels (\<open>u8\<close>) are
  \<open>8 word\<close>.  The lemmas below (dot products, vector sums, squared norms, sign
  vectors) are declared into the collection \<open>vec_simps\<close> and carry the
  component proofs.
\<close>

named_theorems vec_simps "equations on the list-vector operations"

type_synonym vec = "real list"
type_synonym mat = "real list list"
type_synonym usize = "64 word"
type_synonym u8 = "8 word"

definition dot :: "vec \<Rightarrow> vec \<Rightarrow> real" where
  "dot xs ys = sum_list (map2 (*) xs ys)"

definition vadd :: "vec \<Rightarrow> vec \<Rightarrow> vec" where
  "vadd xs ys = map2 (+) xs ys"

definition smul :: "real \<Rightarrow> vec \<Rightarrow> vec" where
  "smul c xs = map ((*) c) xs"

definition sqnorm :: "vec \<Rightarrow> real" where
  "sqnorm xs = sum_list (map (\<lambda>x. x * x) xs)"

definition zero_vec :: "nat \<Rightarrow> vec" where
  "zero_vec m = replicate m 0"

definition is_sign :: "real \<Rightarrow> bool" where
  "is_sign x \<longleftrightarrow> x = 1 \<or> x = -1"

definition is_sign_vec :: "vec \<Rightarrow> bool" where
  "is_sign_vec u \<longleftrightarrow> list_all is_sign u"

section \<open>Dot products\<close>

lemma dot_Nil [simp, vec_simps]: "dot [] ys = 0" "dot xs [] = 0"
  by (simp_all add: dot_def)

lemma dot_Cons [simp, vec_simps]: "dot (x # xs) (y # ys) = x * y + dot xs ys"
  by (simp add: dot_def)

lemma dot_append [vec_simps]:
  "length xs = length ys \<Longrightarrow> dot (xs @ xs') (ys @ ys') = dot xs ys + dot xs' ys'"
  by (induction xs ys rule: list_induct2) simp_all

lemma dot_take_drop [vec_simps]:
  "dot (take k xs) (take k ys) + dot (drop k xs) (drop k ys) = dot xs ys"
  by (simp add: dot_def flip: take_zip drop_zip sum_list_append map_append)

lemma dot_comm [vec_simps]: "dot xs ys = dot ys xs"
  by (induction xs ys rule: list_induct2') (simp_all add: mult.commute)

lemma dot_smul_left [vec_simps]: "dot (smul c xs) ys = c * dot xs ys"
  by (induction xs ys rule: list_induct2') (simp_all add: smul_def algebra_simps)

section \<open>Vector sums\<close>

lemma length_vadd [simp, vec_simps]: "length (vadd xs ys) = min (length xs) (length ys)"
  by (simp add: vadd_def)

lemma length_smul [simp, vec_simps]: "length (smul c xs) = length xs"
  by (simp add: smul_def)

lemma length_zero_vec [simp, vec_simps]: "length (zero_vec m) = m"
  by (simp add: zero_vec_def)

lemma vadd_Cons [simp, vec_simps]: "vadd (x # xs) (y # ys) = (x + y) # vadd xs ys"
  by (simp add: vadd_def)

lemma vadd_Nil [simp, vec_simps]: "vadd [] ys = []" "vadd xs [] = []"
  by (simp_all add: vadd_def)

lemma vadd_assoc [vec_simps]: "vadd (vadd xs ys) zs = vadd xs (vadd ys zs)"
proof (induction xs arbitrary: ys zs)
  case (Cons x xs)
  then show ?case by (cases ys; cases zs) (simp_all add: add.assoc)
qed simp

lemma vadd_comm [vec_simps]: "vadd xs ys = vadd ys xs"
proof (induction xs arbitrary: ys)
  case (Cons x xs)
  then show ?case by (cases ys) (simp_all add: add.commute)
qed simp

lemma vadd_zero_vec [simp, vec_simps]: "length xs = m \<Longrightarrow> vadd (zero_vec m) xs = xs"
  by (induction xs arbitrary: m) (auto simp: zero_vec_def)

lemma nth_vadd [vec_simps]:
  "j < length xs \<Longrightarrow> j < length ys \<Longrightarrow> vadd xs ys ! j = xs ! j + ys ! j"
  by (simp add: vadd_def)

lemma dot_vadd_left [vec_simps]:
  "length xs = length ys \<Longrightarrow> dot (vadd xs ys) zs = dot xs zs + dot ys zs"
proof (induction xs ys arbitrary: zs rule: list_induct2)
  case (Cons x xs y ys)
  then show ?case by (cases zs) (simp_all add: algebra_simps)
qed simp

lemma replicate_numeral: "replicate (numeral k) x = x # replicate (pred_numeral k) x"
  by (simp add: numeral_eq_Suc)

section \<open>Squared norms and sign vectors\<close>

lemma sqnorm_Nil [simp, vec_simps]: "sqnorm [] = 0"
  by (simp add: sqnorm_def)

lemma sqnorm_Cons [simp, vec_simps]: "sqnorm (x # xs) = x * x + sqnorm xs"
  by (simp add: sqnorm_def)

lemma sqnorm_nonneg [simp, vec_simps]: "0 \<le> sqnorm xs"
  by (induction xs) simp_all

lemma sqnorm_append [simp, vec_simps]: "sqnorm (xs @ ys) = sqnorm xs + sqnorm ys"
  by (simp add: sqnorm_def)

lemma is_sign_sq [vec_simps]: "is_sign x \<Longrightarrow> x * x = 1"
  by (auto simp: is_sign_def)

lemma is_sign_vec_simps [simp, vec_simps]:
  "is_sign_vec []" "is_sign_vec (x # xs) \<longleftrightarrow> is_sign x \<and> is_sign_vec xs"
  by (simp_all add: is_sign_vec_def)

lemma is_sign_vec_append [simp, vec_simps]:
  "is_sign_vec (xs @ ys) \<longleftrightarrow> is_sign_vec xs \<and> is_sign_vec ys"
  by (simp add: is_sign_vec_def)

lemma sqnorm_sign_vec [vec_simps]: "is_sign_vec u \<Longrightarrow> sqnorm u = real (length u)"
  by (induction u) (simp_all add: is_sign_sq)

lemma is_sign_abs [vec_simps]: "is_sign x \<Longrightarrow> \<bar>x\<bar> = 1"
  by (auto simp: is_sign_def)

section \<open>Scalar multiples of sign vectors\<close>

lemma smul_zero_left: "smul 0 b = zero_vec (length b)"
  by (induction b) (simp_all add: smul_def zero_vec_def)

lemma smul_smul: "smul p (smul q b) = smul (p * q) b"
  by (simp add: smul_def mult.assoc)

lemma vadd_smul_same: "length b = m \<Longrightarrow> vadd (smul p b) (smul q b) = smul (p + q) b"
  by (induction b arbitrary: m) (simp_all add: smul_def distrib_right)

lemma dot_sign_vec_self: "is_sign_vec a \<Longrightarrow> dot a a = real (length a)"
  by (induction a) (auto simp: is_sign_def)

lemma dot_smul_sign_vec: "is_sign_vec a \<Longrightarrow> dot a (smul s a) = s * real (length a)"
  by (subst dot_comm) (simp add: dot_smul_left dot_sign_vec_self)

lemma dot_sign_vec_parity:
  "length b = length v \<Longrightarrow> is_sign_vec b \<Longrightarrow> is_sign_vec v \<Longrightarrow>
   \<exists>k. dot b v = of_int k \<and> (odd k \<longleftrightarrow> odd (length b))"
proof (induction b v rule: list_induct2)
  case Nil
  then show ?case by (intro exI[of _ 0]) simp
next
  case (Cons x b y v)
  obtain k where k: "dot b v = of_int k" "odd k \<longleftrightarrow> odd (length b)" using Cons by auto
  have "x * y = 1 \<or> x * y = -1" using Cons.prems by (auto simp: is_sign_def)
  then show ?case
  proof
    assume "x * y = 1"
    then show ?thesis using k by (intro exI[of _ "k + 1"]) simp
  next
    assume "x * y = -1"
    then show ?thesis using k by (intro exI[of _ "k - 1"]) simp
  qed
qed

lemma dot_sign_vec_odd:
  "length b = length v \<Longrightarrow> is_sign_vec b \<Longrightarrow> is_sign_vec v \<Longrightarrow> odd (length b) \<Longrightarrow> dot b v \<noteq> 0"
  using dot_sign_vec_parity by fastforce

lemma is_sign_sgn: "x \<noteq> 0 \<Longrightarrow> is_sign (sgn (x :: real))"
  by (cases "0 < x") (simp_all add: is_sign_def)

lemma sgn_nonzero: "x \<noteq> 0 \<Longrightarrow> sgn (x :: real) \<noteq> 0"
  using is_sign_sgn[of x] by (auto simp: is_sign_def)

lemma sgn_smul_sign_vec:
  "is_sign_vec a \<Longrightarrow> map sgn (smul k a) = smul (sgn k) a"
  by (induction a) (auto simp: smul_def is_sign_def sgn_mult)

lemma smul_sign_vec_nonzero:
  "is_sign_vec a \<Longrightarrow> k \<noteq> 0 \<Longrightarrow> list_all (\<lambda>x. x \<noteq> 0) (smul k a)"
  by (induction a) (auto simp: smul_def is_sign_def)

end
