(* ===== verification/MatVec.thy ===== *)
theory MatVec
  imports Prelude
begin

text \<open>
  BlockTiledMatVec (spec section 4.3; the code lives in the external crate \<open>cuts_v2\<close>,
  so it is modelled from the spec).  The matrix is split into tiles of \<open>b\<close>
  consecutive rows (and, for \<open>R\<cdot>v\<close>, of \<open>b\<close> consecutive columns), the last tile
  possibly shorter.  For each product there is a direct reference definition and a
  tiled one, and the lemmas show that they agree: tiling is a change of
  evaluation order, not of result.
\<close>

section \<open>Tiles\<close>

text \<open>
  \<open>tiles b xs\<close> cuts \<open>xs\<close> into consecutive blocks of length \<open>b\<close>.  The engine never
  runs with \<open>b = 0\<close> (its constructor rejects it); the model then keeps the whole
  list as one tile, so that the splitter is total.
\<close>

fun tiles :: "nat \<Rightarrow> 'a list \<Rightarrow> 'a list list" where
  "tiles b xs =
     (if xs = [] then [] else if b = 0 then [xs] else take b xs # tiles b (drop b xs))"

declare tiles.simps [simp del]

section \<open>Direct products\<close>

definition mat_vec :: "mat \<Rightarrow> vec \<Rightarrow> vec" where
  "mat_vec R v = map (\<lambda>r. dot r v) R"

fun vec_mat :: "nat \<Rightarrow> vec \<Rightarrow> mat \<Rightarrow> vec" where
  "vec_mat m (x # u) (r # R) = vadd (smul x r) (vec_mat m u R)"
| "vec_mat m _ _ = zero_vec m"

definition row_update :: "real \<Rightarrow> vec \<Rightarrow> vec \<Rightarrow> vec" where
  "row_update c v r = map2 (\<lambda>x y. x - c * y) r v"

definition rank1_update :: "real \<Rightarrow> vec \<Rightarrow> vec \<Rightarrow> mat \<Rightarrow> mat" where
  "rank1_update w u v R = map2 (\<lambda>ui r. row_update (w * ui) v r) u R"

definition mat_sqnorm :: "mat \<Rightarrow> real" where
  "mat_sqnorm R = sum_list (map sqnorm R)"

definition outer :: "real \<Rightarrow> vec \<Rightarrow> vec \<Rightarrow> mat" where
  "outer w u v = map (\<lambda>ui. smul (w * ui) v) u"

definition mat_add :: "mat \<Rightarrow> mat \<Rightarrow> mat" where
  "mat_add A B = map2 vadd A B"

definition mat_sub :: "mat \<Rightarrow> mat \<Rightarrow> mat" where
  "mat_sub A B = map2 (map2 (-)) A B"

definition zero_mat :: "nat \<Rightarrow> nat \<Rightarrow> mat" where
  "zero_mat n m = replicate n (zero_vec m)"

definition wf_mat :: "nat \<Rightarrow> nat \<Rightarrow> mat \<Rightarrow> bool" where
  "wf_mat n m R \<longleftrightarrow> length R = n \<and> list_all (\<lambda>r. length r = m) R"

section \<open>Tiled products\<close>

text \<open>
  \<open>R\<cdot>v\<close>: every row tile is computed on its own and written to its slice of the
  output; inside a row, the column tiles are accumulated first and their partial
  sums combined afterwards.
\<close>

definition dot_tiled :: "nat \<Rightarrow> vec \<Rightarrow> vec \<Rightarrow> real" where
  "dot_tiled b r v = sum_list (map2 dot (tiles b r) (tiles b v))"

definition mat_vec_tiled :: "nat \<Rightarrow> mat \<Rightarrow> vec \<Rightarrow> vec" where
  "mat_vec_tiled b R v = concat (map (map (\<lambda>r. dot_tiled b r v)) (tiles b R))"

text \<open>
  \<open>R\<^sup>T\<cdot>u\<close>: each row tile accumulates its own partial vector of length \<open>m\<close>; the
  partial vectors are then summed across tiles.
\<close>

definition vec_mat_tiled :: "nat \<Rightarrow> nat \<Rightarrow> vec \<Rightarrow> mat \<Rightarrow> vec" where
  "vec_mat_tiled b m u R =
     foldr vadd (map2 (vec_mat m) (tiles b u) (tiles b R)) (zero_vec m)"

text \<open>The in-place update \<open>R -= w\<cdot>(u v\<^sup>T)\<close>: each tile reads and writes only its rows.\<close>

definition rank1_update_tiled :: "nat \<Rightarrow> real \<Rightarrow> vec \<Rightarrow> vec \<Rightarrow> mat \<Rightarrow> mat" where
  "rank1_update_tiled b w u v R =
     concat (map2 (\<lambda>uT RT. rank1_update w uT v RT) (tiles b u) (tiles b R))"

section \<open>Lemmas on tiles\<close>

lemma tiles_Nil [simp]: "tiles b [] = []"
  by (simp add: tiles.simps)

lemma tiles_zero [simp]: "tiles 0 xs = (if xs = [] then [] else [xs])"
  by (simp add: tiles.simps)

lemma tiles_step:
  "xs \<noteq> [] \<Longrightarrow> 0 < b \<Longrightarrow> tiles b xs = take b xs # tiles b (drop b xs)"
  by (simp add: tiles.simps)

lemma tiles_concat: "concat (tiles b xs) = xs"
proof (induction b xs rule: tiles.induct)
  case (1 b xs)
  show ?case
  proof (cases "xs = [] \<or> b = 0")
    case False
    with "1" show ?thesis by (simp add: tiles_step)
  qed auto
qed

lemma tiles_bounded: "0 < b \<Longrightarrow> T \<in> set (tiles b xs) \<Longrightarrow> T \<noteq> [] \<and> length T \<le> b"
proof (induction b xs rule: tiles.induct)
  case (1 b xs)
  then show ?case by (cases "xs = []") (auto simp: tiles_step)
qed

lemma tiles_full: "0 < b \<Longrightarrow> T \<in> set (butlast (tiles b xs)) \<Longrightarrow> length T = b"
proof (induction b xs rule: tiles.induct)
  case (1 b xs)
  show ?case
  proof (cases "xs = []")
    case False
    with "1.prems" have "T = take b xs \<and> drop b xs \<noteq> [] \<or> T \<in> set (butlast (tiles b (drop b xs)))"
      by (auto simp: tiles_step[of xs] split: if_splits)
    with "1" False show ?thesis by auto
  qed (use "1.prems" in simp)
qed

lemma length_tiles: "0 < b \<Longrightarrow> length (tiles b xs) = (length xs + b - 1) div b"
proof (induction b xs rule: tiles.induct)
  case (1 b xs)
  show ?case
  proof (cases "xs = []")
    case False
    then have L: "1 \<le> length xs" by (cases xs) auto
    from False "1" have "length (tiles b xs) = Suc ((length xs - b + b - 1) div b)"
      by (simp add: tiles_step)
    also have "\<dots> = (length xs + b - 1) div b"
    proof (cases "length xs \<le> b")
      case True
      then have "(length xs - b + b - 1) div b = 0" using "1.prems" by simp
      moreover have "(length xs + b - 1) div b = 1"
        using True L "1.prems" by (intro div_nat_eqI) simp_all
      ultimately show ?thesis by simp
    next
      case False
      then have "length xs + b - 1 = (length xs - b + b - 1) + b" by simp
      then show ?thesis using "1.prems" by (simp only: div_add_self2)
    qed
    finally show ?thesis .
  qed (use "1.prems" in simp)
qed

lemma dot_tiled_eq: "length r = length v \<Longrightarrow> dot_tiled b r v = dot r v"
proof (induction b r arbitrary: v rule: tiles.induct)
  case (1 b r)
  show ?case
  proof (cases "r = [] \<or> b = 0")
    case True
    with "1.prems" show ?thesis by (cases "r = []") (auto simp: dot_tiled_def)
  next
    case False
    with "1.prems" have "v \<noteq> []" by auto
    with False "1.prems" "1.IH"[of "drop b v"]
    have "dot_tiled b r v = dot (take b r) (take b v) + dot (drop b r) (drop b v)"
      by (simp add: dot_tiled_def tiles_step)
    then show ?thesis by (simp add: dot_take_drop)
  qed
qed

lemma mat_vec_tiled_eq:
  "list_all (\<lambda>r. length r = length v) R \<Longrightarrow> mat_vec_tiled b R v = mat_vec R v"
proof -
  assume rows: "list_all (\<lambda>r. length r = length v) R"
  have "mat_vec_tiled b R v = map (\<lambda>r. dot_tiled b r v) (concat (tiles b R))"
    by (simp add: mat_vec_tiled_def map_concat)
  also have "\<dots> = map (\<lambda>r. dot r v) R"
    using rows by (simp add: tiles_concat dot_tiled_eq list_all_iff)
  finally show ?thesis by (simp add: mat_vec_def)
qed

lemma length_vec_mat [simp]:
  "list_all (\<lambda>r. length r = m) R \<Longrightarrow> length (vec_mat m u R) = m"
  by (induction m u R rule: vec_mat.induct) auto

lemma vec_mat_append:
  assumes "length u1 = length R1" "list_all (\<lambda>r. length r = m) (R1 @ R2)"
  shows "vec_mat m (u1 @ u2) (R1 @ R2) = vadd (vec_mat m u1 R1) (vec_mat m u2 R2)"
  using assms
proof (induction u1 R1 rule: list_induct2)
  case Nil
  then show ?case by simp
next
  case (Cons x u1 r R1)
  then show ?case by (simp add: vadd_assoc)
qed

lemma vadd_zero_vec_right [simp]: "length xs = m \<Longrightarrow> vadd xs (zero_vec m) = xs"
  by (simp add: vadd_comm[of xs])

lemma vec_mat_tiled_eq:
  "length u = length R \<Longrightarrow> list_all (\<lambda>r. length r = m) R \<Longrightarrow>
   vec_mat_tiled b m u R = vec_mat m u R"
proof (induction b R arbitrary: u rule: tiles.induct)
  case (1 b R)
  show ?case
  proof (cases "R = [] \<or> b = 0")
    case True
    with "1.prems" show ?thesis by (cases "R = []") (auto simp: vec_mat_tiled_def)
  next
    case False
    with "1.prems" have "u \<noteq> []" by auto
    have "list_all (\<lambda>r. length r = m) (drop b R)"
      using "1.prems"(2) by (auto simp: list_all_iff dest: in_set_dropD)
    with False \<open>u \<noteq> []\<close> "1.prems"(1) "1.IH"[of "drop b u"]
    have "vec_mat_tiled b m u R =
          vadd (vec_mat m (take b u) (take b R)) (vec_mat m (drop b u) (drop b R))"
      by (simp add: vec_mat_tiled_def tiles_step)
    also have "\<dots> = vec_mat m u R"
      using "1.prems" vec_mat_append[of "take b u" "take b R" m "drop b R" "drop b u"]
      by simp
    finally show ?thesis .
  qed
qed

lemma rank1_update_append:
  "length u1 = length R1 \<Longrightarrow>
   rank1_update w (u1 @ u2) v (R1 @ R2) = rank1_update w u1 v R1 @ rank1_update w u2 v R2"
  by (simp add: rank1_update_def)

lemma rank1_update_tiled_eq:
  "length u = length R \<Longrightarrow> rank1_update_tiled b w u v R = rank1_update w u v R"
proof (induction b R arbitrary: u rule: tiles.induct)
  case (1 b R)
  show ?case
  proof (cases "R = [] \<or> b = 0")
    case True
    with "1.prems" show ?thesis
      by (cases "R = []") (auto simp: rank1_update_tiled_def rank1_update_def)
  next
    case False
    with "1.prems" have "u \<noteq> []" by auto
    with False "1.prems" "1.IH"[of "drop b u"]
    have "rank1_update_tiled b w u v R =
          rank1_update w (take b u) v (take b R) @ rank1_update w (drop b u) v (drop b R)"
      by (simp add: rank1_update_tiled_def tiles_step)
    also have "\<dots> = rank1_update w u v R"
      using "1.prems" by (simp flip: rank1_update_append)
    finally show ?thesis .
  qed
qed

lemma dot_zero_vec [simp]: "dot (zero_vec m) v = 0"
proof (induction m arbitrary: v)
  case (Suc m)
  then show ?case by (cases v) (simp_all add: zero_vec_def)
qed (simp add: zero_vec_def)

lemma dot_vec_mat:
  "length u = length R \<Longrightarrow> list_all (\<lambda>r. length r = m) R \<Longrightarrow>
   dot (vec_mat m u R) v = dot u (mat_vec R v)"
  by (induction u R rule: list_induct2) (simp_all add: mat_vec_def dot_vadd_left dot_smul_left)

lemma length_mat_vec [simp]: "length (mat_vec R v) = length R"
  by (simp add: mat_vec_def)

lemma sqnorm_row_update:
  "length r = length v \<Longrightarrow>
   sqnorm (row_update c v r) = sqnorm r - 2 * c * dot r v + c * c * sqnorm v"
  by (induction r v rule: list_induct2) (simp_all add: row_update_def algebra_simps)

lemma mat_sqnorm_rank1_update:
  "length u = length R \<Longrightarrow> list_all (\<lambda>r. length r = length v) R \<Longrightarrow>
   mat_sqnorm (rank1_update w u v R) =
     mat_sqnorm R - 2 * w * dot u (mat_vec R v) + w * w * sqnorm u * sqnorm v"
  by (induction u R rule: list_induct2)
     (simp_all add: rank1_update_def mat_sqnorm_def mat_vec_def sqnorm_row_update algebra_simps)

lemma row_update_vadd:
  "length r = length v \<Longrightarrow> length e = length v \<Longrightarrow>
   vadd (row_update c v r) (vadd e (smul c v)) = vadd r e"
  by (induction r v arbitrary: e rule: list_induct2)
     (auto simp: row_update_def smul_def length_Suc_conv)

lemma rank1_update_mat_add:
  "length u = length R \<Longrightarrow> length E = length R \<Longrightarrow>
   list_all (\<lambda>r. length r = length v) R \<Longrightarrow> list_all (\<lambda>r. length r = length v) E \<Longrightarrow>
   mat_add (rank1_update w u v R) (mat_add E (outer w u v)) = mat_add R E"
proof (induction u R arbitrary: E rule: list_induct2)
  case (Cons x u r R)
  then show ?case
    by (cases E) (simp_all add: rank1_update_def mat_add_def outer_def row_update_vadd)
qed (simp add: rank1_update_def mat_add_def)

section \<open>Entries of the direct products\<close>

lemma dot_sum_nth:
  "length xs = length ys \<Longrightarrow> dot xs ys = (\<Sum>j<length xs. xs ! j * ys ! j)"
  by (induction xs ys rule: list_induct2) (simp_all add: sum.lessThan_Suc_shift del: sum.lessThan_Suc)

lemma nth_vec_mat:
  "length u = length R \<Longrightarrow> list_all (\<lambda>r. length r = m) R \<Longrightarrow> j < m \<Longrightarrow>
   vec_mat m u R ! j = (\<Sum>i<length u. u ! i * R ! i ! j)"
  by (induction u R rule: list_induct2)
     (simp_all add: sum.lessThan_Suc_shift nth_vadd smul_def zero_vec_def del: sum.lessThan_Suc)

lemma nth_rank1_update:
  "i < length u \<Longrightarrow> i < length R \<Longrightarrow> j < length (R ! i) \<Longrightarrow> j < length v \<Longrightarrow>
   rank1_update w u v R ! i ! j = R ! i ! j - w * u ! i * v ! j"
  by (simp add: rank1_update_def row_update_def)

lemma wf_mat_row: "wf_mat n m R \<Longrightarrow> i < n \<Longrightarrow> length (R ! i) = m"
  by (simp add: wf_mat_def list_all_length)

lemma wf_rank1_update:
  "wf_mat n m R \<Longrightarrow> length u = n \<Longrightarrow> length v = m \<Longrightarrow> wf_mat n m (rank1_update w u v R)"
  by (simp add: wf_mat_def rank1_update_def row_update_def list_all_length)

section \<open>Matrix sums\<close>

lemma wf_mat_add:
  "wf_mat n m A \<Longrightarrow> wf_mat n m B \<Longrightarrow> wf_mat n m (mat_add A B)"
  by (simp add: wf_mat_def mat_add_def list_all_length)

lemma wf_outer: "length u = n \<Longrightarrow> length v = m \<Longrightarrow> wf_mat n m (outer w u v)"
  by (simp add: wf_mat_def outer_def list_all_iff)

lemma wf_zero_mat: "wf_mat n m (zero_mat n m)"
  by (simp add: wf_mat_def zero_mat_def list_all_iff)

lemma mat_add_zero_mat: "wf_mat n m A \<Longrightarrow> mat_add A (zero_mat n m) = A"
proof (induction A arbitrary: n)
  case (Cons r A)
  then show ?case
    by (cases n) (auto simp: wf_mat_def mat_add_def zero_mat_def)
qed (simp add: wf_mat_def mat_add_def zero_mat_def)

lemma vadd_eq_sub:
  "length a = length b \<Longrightarrow> vadd a b = t \<Longrightarrow> a = map2 (-) t b \<and> b = map2 (-) t a"
  by (induction a b arbitrary: t rule: list_induct2) auto

lemma mat_add_eq_sub:
  "wf_mat n m A \<Longrightarrow> wf_mat n m B \<Longrightarrow> mat_add A B = T \<Longrightarrow>
   A = mat_sub T B \<and> B = mat_sub T A"
proof (induction A arbitrary: B T n)
  case Nil
  then show ?case by (simp add: wf_mat_def mat_sub_def)
next
  case (Cons a A)
  then obtain b B' n' where B: "B = b # B'" "n = Suc n'"
    by (cases B; cases n) (auto simp: wf_mat_def)
  with Cons.prems have "wf_mat n' m A" "wf_mat n' m B'" "length a = length b"
    by (simp_all add: wf_mat_def)
  with Cons.prems Cons.IH[of n' B' "mat_add A B'"] B vadd_eq_sub[of a b]
  show ?case by (auto simp: mat_add_def mat_sub_def)
qed

section \<open>Rank-one matrices\<close>

lemma outer_Cons: "outer c (y # a) b = smul (c * y) b # outer c a b"
  by (simp add: outer_def)

lemma mat_vec_outer: "mat_vec (outer c a b) v = smul (c * dot b v) a"
  by (simp add: mat_vec_def outer_def smul_def dot_smul_left[unfolded smul_def] mult_ac)

lemma vec_mat_outer:
  "length u = length a \<Longrightarrow> length b = m \<Longrightarrow> vec_mat m u (outer c a b) = smul (c * dot u a) b"
proof (induction u a rule: list_induct2)
  case Nil
  then show ?case by (simp add: outer_def smul_zero_left)
next
  case (Cons x u y a)
  have "vec_mat m (x # u) (outer c (y # a) b) = vadd (smul (x * (c * y)) b) (smul (c * dot u a) b)"
    using Cons by (simp add: outer_Cons smul_smul)
  also have "\<dots> = smul (c * dot (x # u) (y # a)) b"
    using Cons.prems by (simp add: vadd_smul_same algebra_simps)
  finally show ?case .
qed

lemma zero_mat_add: "wf_mat n m A \<Longrightarrow> mat_add (zero_mat n m) A = A"
proof (induction A arbitrary: n)
  case (Cons r A)
  then show ?case
    by (cases n) (auto simp: wf_mat_def mat_add_def zero_mat_def)
qed (simp add: wf_mat_def mat_add_def zero_mat_def)

lemma mat_sqnorm_zero_mat: "mat_sqnorm (zero_mat n m) = 0"
proof -
  have "sqnorm (zero_vec m) = 0" by (induction m) (simp_all add: zero_vec_def)
  moreover have "sum_list (replicate n (0::real)) = 0" by (induction n) simp_all
  ultimately show ?thesis by (simp add: mat_sqnorm_def zero_mat_def)
qed

lemma rank1_update_outer_self:
  "rank1_update w u v (outer w u v) = zero_mat (length u) (length v)"
proof (induction u)
  case Nil
  then show ?case by (simp add: rank1_update_def outer_def zero_mat_def)
next
  case (Cons x u)
  have "row_update (w * x) v (smul (w * x) v) = zero_vec (length v)"
    by (induction v) (simp_all add: row_update_def smul_def zero_vec_def)
  with Cons show ?case by (simp add: rank1_update_def outer_Cons zero_mat_def)
qed

lemma outer_sign_pair:
  "is_sign \<sigma> \<Longrightarrow> is_sign \<tau> \<Longrightarrow> outer (c * \<sigma> * \<tau>) (smul \<sigma> a) (smul \<tau> b) = outer c a b"
  by (auto simp: outer_def smul_def is_sign_def smul_smul[unfolded smul_def] o_def)

section \<open>The tiled products implement their entry-wise specification\<close>

text \<open>Splitting into tiles loses and duplicates nothing: the tiles concatenate
  back to the input; for a positive tile size every tile is non-empty and at most
  \<open>b\<close> long, every tile but the last is exactly \<open>b\<close> long (the boundary tile is the
  only short one), and there are \<open>\<lceil>length xs / b\<rceil>\<close> of them.\<close>

theorem tiles_partition:
  "concat (tiles b xs) = xs \<and>
   (0 < b \<longrightarrow> (\<forall>T\<in>set (tiles b xs). T \<noteq> [] \<and> length T \<le> b) \<and>
              (\<forall>T\<in>set (butlast (tiles b xs)). length T = b) \<and>
              length (tiles b xs) = (length xs + b - 1) div b)"
  by (simp add: tiles_concat tiles_bounded tiles_full length_tiles)

text \<open>The tiled product \<open>R\<cdot>v\<close> (row tiles written to their slice,
  column tiles accumulated before they are combined) computes, for every tile size,
  entry \<open>i\<close> as \<open>\<Sum>j<m. R\<^sub>i\<^sub>j v\<^sub>j\<close>: it equals the direct, untiled product.\<close>

theorem mat_vec_tiled_spec:
  assumes "wf_mat n m R" "length v = m" "i < n"
  shows "mat_vec_tiled b R v ! i = (\<Sum>j<m. R ! i ! j * v ! j)"
proof -
  have "list_all (\<lambda>r. length r = length v) R"
    using assms(1,2) by (simp add: wf_mat_def)
  then have "mat_vec_tiled b R v ! i = dot (R ! i) v"
    using assms by (simp add: mat_vec_tiled_eq mat_vec_def wf_mat_def)
  then show ?thesis
    using assms by (simp add: dot_sum_nth wf_mat_row)
qed

text \<open>The tiled product \<open>R\<^sup>T\<cdot>u\<close> (each row tile accumulates a partial
  vector, the partial vectors are summed across tiles) computes entry \<open>j\<close> as
  \<open>\<Sum>i<n. u\<^sub>i R\<^sub>i\<^sub>j\<close>, for every tile size.\<close>

theorem vec_mat_tiled_spec:
  assumes "wf_mat n m R" "length u = n" "j < m"
  shows "vec_mat_tiled b m u R ! j = (\<Sum>i<n. u ! i * R ! i ! j)"
  using assms by (simp add: vec_mat_tiled_eq nth_vec_mat wf_mat_def)

text \<open>The tile-by-tile update \<open>R -= w\<cdot>(u v\<^sup>T)\<close> keeps the shape
  \<open>n \<times> m\<close> and subtracts \<open>w u\<^sub>i v\<^sub>j\<close> from entry \<open>(i, j)\<close>, for every tile size.\<close>

theorem rank1_update_tiled_spec:
  assumes "wf_mat n m R" "length u = n" "length v = m" "i < n" "j < m"
  shows "wf_mat n m (rank1_update_tiled b w u v R) \<and>
         rank1_update_tiled b w u v R ! i ! j = R ! i ! j - w * u ! i * v ! j"
proof -
  have "rank1_update_tiled b w u v R = rank1_update w u v R"
    using assms(1,2) by (simp add: rank1_update_tiled_eq wf_mat_def)
  moreover have "wf_mat n m (rank1_update w u v R)"
    using assms(1-3) by (rule wf_rank1_update)
  moreover have "length (R ! i) = m" "length R = n"
    using assms(1,4) wf_mat_row by (auto simp: wf_mat_def)
  ultimately show ?thesis
    using assms(2-5) by (simp add: nth_rank1_update)
qed

end
