(* ===== verification/CutFinder.thy ===== *)
theory CutFinder
  imports MatVec
begin

text \<open>
  CutFinder (spec section 4.2; the code is \<open>SctHelper::cut\<close>'s search in the external
  crate \<open>cuts_v2\<close>, modelled from the spec).  The pseudo-random generator is an
  interface: any state type \<open>'g\<close> with a function \<open>draw\<close> returning one random bit
  and the next state (\<open>StdRng\<close> in the program).  Every lemma here holds for every
  generator, so nothing depends on which bits it produces.

  One call draws a random sign vector \<open>v\<close>, then alternates \<open>u := sign(R v)\<close> and
  \<open>v := sign(R\<^sup>T u)\<close> (both products tiled), a zero entry taking its sign from a
  fresh draw.  The first round always runs; at most \<open>cap - 1\<close> more follow, and
  the loop stops early when a round leaves \<open>u\<close> and \<open>v\<close> unchanged.  The weight is
  \<open>u\<^sup>T R v / (n m)\<close>.
\<close>

type_synonym 'g draw = "'g \<Rightarrow> bool \<times> 'g"

record cut =
  cut_u :: vec
  cut_v :: vec
  cut_w :: real

section \<open>Signs with a random tie-break\<close>

definition sign_bit :: "bool \<Rightarrow> real" where
  "sign_bit b = (if b then 1 else -1)"

definition sign_of :: "'g draw \<Rightarrow> real \<Rightarrow> 'g \<Rightarrow> real \<times> 'g" where
  "sign_of draw x g =
     (if 0 < x then (1, g)
      else if x < 0 then (-1, g)
      else let (b, g') = draw g in (sign_bit b, g'))"

fun signs :: "'g draw \<Rightarrow> vec \<Rightarrow> 'g \<Rightarrow> vec \<times> 'g" where
  "signs draw [] g = ([], g)"
| "signs draw (x # xs) g =
     (let (s, g1) = sign_of draw x g; (ss, g2) = signs draw xs g1 in (s # ss, g2))"

fun draw_signs :: "'g draw \<Rightarrow> nat \<Rightarrow> 'g \<Rightarrow> vec \<times> 'g" where
  "draw_signs draw 0 g = ([], g)"
| "draw_signs draw (Suc k) g =
     (let (b, g1) = draw g; (ss, g2) = draw_signs draw k g1 in (sign_bit b # ss, g2))"

section \<open>Alternating rounds\<close>

definition alt_round :: "'g draw \<Rightarrow> nat \<Rightarrow> nat \<Rightarrow> mat \<Rightarrow> vec \<Rightarrow> 'g \<Rightarrow> vec \<times> vec \<times> 'g" where
  "alt_round draw b m R v g =
     (let (u', g1) = signs draw (mat_vec_tiled b R v) g;
          (v', g2) = signs draw (vec_mat_tiled b m u' R) g1
      in (u', v', g2))"

fun refine :: "'g draw \<Rightarrow> nat \<Rightarrow> nat \<Rightarrow> nat \<Rightarrow> mat \<Rightarrow> vec \<Rightarrow> vec \<Rightarrow> 'g \<Rightarrow> vec \<times> vec \<times> 'g" where
  "refine draw b m 0 R u v g = (u, v, g)"
| "refine draw b m (Suc k) R u v g =
     (let (u', v', g') = alt_round draw b m R v g
      in if u' = u \<and> v' = v then (u, v, g') else refine draw b m k R u' v' g')"

definition find_cut :: "'g draw \<Rightarrow> nat \<Rightarrow> nat \<Rightarrow> nat \<Rightarrow> nat \<Rightarrow> mat \<Rightarrow> 'g \<Rightarrow> cut \<times> 'g" where
  "find_cut draw cap b n m R g =
     (let (v0, g1) = draw_signs draw m g;
          (u1, v1, g2) = alt_round draw b m R v0 g1;
          (u, v, g3) = refine draw b m (cap - 1) R u1 v1 g2;
          w = dot u (mat_vec_tiled b R v) / real (n * m)
      in (\<lparr>cut_u = u, cut_v = v, cut_w = w\<rparr>, g3))"

text \<open>
  A concrete generator for evaluating the search on examples: a linear congruential
  generator on \<open>nat\<close> (multiplier 75, increment 74, modulus 65537) whose bit is the
  upper half of the state range.  It stands in for \<open>StdRng\<close>, which is not modelled;
  no lemma depends on it.
\<close>

definition lcg_draw :: "nat draw" where
  "lcg_draw s = (let s' = (75 * s + 74) mod 65537 in (32768 \<le> s', s'))"

text \<open>A generator that counts its draws: the counter in the second component is
  incremented once per draw; used to bound the work of the search.\<close>

definition count_draw :: "'g draw \<Rightarrow> ('g \<times> nat) draw" where
  "count_draw draw = (\<lambda>(g, k). let (b, g') = draw g in (b, (g', Suc k)))"


section \<open>Lemmas on signs\<close>

lemma sign_of_sign: "is_sign (fst (sign_of draw x g))"
  by (simp add: sign_of_def sign_bit_def is_sign_def Let_def split_def)

lemma sign_of_times: "fst (sign_of draw x g) * x = \<bar>x\<bar>"
  by (simp add: sign_of_def Let_def split_def)

lemma signs_length [simp]: "length (fst (signs draw p g)) = length p"
  by (induction p arbitrary: g) (simp_all add: Let_def split_def)

lemma signs_sign_vec: "is_sign_vec (fst (signs draw p g))"
  by (induction p arbitrary: g) (simp_all add: sign_of_sign Let_def split_def)

lemma dot_signs: "dot (fst (signs draw p g)) p = sum_list (map abs p)"
proof (induction p arbitrary: g)
  case (Cons x p)
  then show ?case
    using sign_of_times[of draw x g] by (simp add: Let_def split_def)
qed simp

lemma sum_abs_nonneg [simp]: "0 \<le> sum_list (map abs (p :: vec))"
  by (induction p) simp_all

lemma dot_sign_vec_le: "is_sign_vec u \<Longrightarrow> dot u p \<le> sum_list (map abs p)"
proof (induction u p rule: list_induct2')
  case (4 x u y p)
  then have "x * y \<le> \<bar>y\<bar>"
    by (auto simp: is_sign_def)
  with 4 show ?case by simp
qed simp_all

lemma draw_signs_length [simp]: "length (fst (draw_signs draw k g)) = k"
  by (induction k arbitrary: g) (simp_all add: Let_def split_def)

lemma draw_signs_sign_vec: "is_sign_vec (fst (draw_signs draw k g))"
  by (induction k arbitrary: g) (simp_all add: sign_bit_def is_sign_def Let_def split_def)

section \<open>Evaluation\<close>

text \<open>
  Unfoldings with the recursion guarded by an \<open>if\<close>: on closed terms the simplifier
  decides the guard on the numeral first, so these evaluate the search on examples
  without expanding numerals into \<open>Suc\<close> chains.
\<close>

lemma draw_signs_unfold:
  "draw_signs draw k g =
     (if k = 0 then ([], g)
      else let (b, g1) = draw g; (ss, g2) = draw_signs draw (k - 1) g1 in (sign_bit b # ss, g2))"
  by (cases k) simp_all

lemma refine_unfold:
  "refine draw b m k R u v g =
     (if k = 0 then (u, v, g)
      else let (u', v', g') = alt_round draw b m R v g
           in if u' = u \<and> v' = v then (u, v, g') else refine draw b m (k - 1) R u' v' g')"
  by (cases k) (simp_all add: split_def Let_def)

lemmas search_eval_simps = replicate_numeral draw_signs_unfold refine_unfold find_cut_def
  lcg_draw_def alt_round_def sign_of_def sign_bit_def mat_vec_tiled_def dot_tiled_def
  vec_mat_tiled_def tiles.simps rank1_update_tiled_def rank1_update_def row_update_def
  mat_sqnorm_def smul_def zero_vec_def

section \<open>Lemmas on the rounds and the search\<close>

lemma wf_mat_rows: "wf_mat n m R \<Longrightarrow> list_all (\<lambda>r. length r = m) R"
  by (simp add: wf_mat_def)

lemma alt_round_props:
  assumes wf: "wf_mat n m R" and v: "is_sign_vec v" "length v = m"
    and r: "alt_round draw b m R v g = (u', v', g')"
  shows "is_sign_vec u' \<and> length u' = n \<and> is_sign_vec v' \<and> length v' = m \<and>
         dot u' (mat_vec R v) = sum_list (map abs (mat_vec R v)) \<and>
         dot u' (mat_vec R v) \<le> dot u' (mat_vec R v')"
proof -
  have rows: "list_all (\<lambda>r. length r = m) R" and n: "length R = n"
    using wf by (simp_all add: wf_mat_def)
  obtain g1 where s1: "signs draw (mat_vec R v) g = (u', g1)"
    and s2: "signs draw (vec_mat m u' R) g1 = (v', g')"
  proof -
    obtain u1 g1 where s1: "signs draw (mat_vec R v) g = (u1, g1)"
      by (cases "signs draw (mat_vec R v) g") auto
    obtain v1 g2 where s2: "signs draw (vec_mat m u1 R) g1 = (v1, g2)"
      by (cases "signs draw (vec_mat m u1 R) g1") auto
    have "length u1 = length R"
      using signs_length[of draw "mat_vec R v" g] s1 by simp
    then have "alt_round draw b m R v g = (u1, v1, g2)"
      using s1 s2 rows v(2) by (simp add: alt_round_def mat_vec_tiled_eq vec_mat_tiled_eq)
    with r s1 s2 that show ?thesis by simp
  qed
  have u': "u' = fst (signs draw (mat_vec R v) g)" and v': "v' = fst (signs draw (vec_mat m u' R) g1)"
    using s1 s2 by simp_all
  have "dot u' (mat_vec R v) = dot (vec_mat m u' R) v"
    using u' n rows by (simp add: dot_vec_mat)
  also have "\<dots> \<le> sum_list (map abs (vec_mat m u' R))"
    using v(1) by (simp add: dot_comm[of _ v] dot_sign_vec_le)
  also have "\<dots> = dot v' (vec_mat m u' R)"
    using v' by (simp add: dot_signs)
  also have "\<dots> = dot (vec_mat m u' R) v'"
    by (rule dot_comm)
  also have "\<dots> = dot u' (mat_vec R v')"
    using u' n rows by (simp add: dot_vec_mat)
  finally show ?thesis
    using u' v' n rows by (simp add: signs_sign_vec dot_signs)
qed

lemma refine_props:
  assumes "wf_mat n m R" "is_sign_vec u" "length u = n" "is_sign_vec v" "length v = m"
    and "refine draw b m k R u v g = (u2, v2, g2)"
  shows "is_sign_vec u2 \<and> length u2 = n \<and> is_sign_vec v2 \<and> length v2 = m \<and>
         dot u (mat_vec R v) \<le> dot u2 (mat_vec R v2)"
  using assms(2-)
proof (induction k arbitrary: u v g)
  case 0
  then show ?case by simp
next
  case (Suc k)
  obtain u' v' g' where r: "alt_round draw b m R v g = (u', v', g')"
    by (cases "alt_round draw b m R v g") auto
  note props = alt_round_props[OF assms(1) Suc.prems(3,4) r]
  have "dot u (mat_vec R v) \<le> dot u' (mat_vec R v)"
    using props Suc.prems(1) by (simp add: dot_sign_vec_le)
  also have "\<dots> \<le> dot u' (mat_vec R v')"
    using props by simp
  finally have le: "dot u (mat_vec R v) \<le> dot u' (mat_vec R v')" .
  show ?case
  proof (cases "u' = u \<and> v' = v")
    case True
    with Suc.prems r show ?thesis by simp
  next
    case False
    with Suc.prems(5) r have "refine draw b m k R u' v' g' = (u2, v2, g2)" by simp
    with Suc.IH[of u' v' g'] props le show ?thesis by fastforce
  qed
qed

lemma find_cut_props:
  assumes wf: "wf_mat n m R" and fc: "find_cut draw cap b n m R g = (c, g')"
  shows "is_sign_vec (cut_u c) \<and> length (cut_u c) = n \<and>
         is_sign_vec (cut_v c) \<and> length (cut_v c) = m \<and>
         cut_w c = dot (cut_u c) (mat_vec R (cut_v c)) / real (n * m) \<and>
         0 \<le> dot (cut_u c) (mat_vec R (cut_v c))"
proof -
  obtain v0 g1 where d: "draw_signs draw m g = (v0, g1)"
    by (cases "draw_signs draw m g") auto
  obtain u1 v1 g2 where a: "alt_round draw b m R v0 g1 = (u1, v1, g2)"
    by (cases "alt_round draw b m R v0 g1") auto
  obtain u v g3 where rf: "refine draw b m (cap - 1) R u1 v1 g2 = (u, v, g3)"
    by (cases "refine draw b m (cap - 1) R u1 v1 g2") auto
  have v0: "is_sign_vec v0" "length v0 = m"
    using draw_signs_sign_vec[of draw m g] draw_signs_length[of draw m g] d by simp_all
  note A = alt_round_props[OF wf v0 a]
  have B: "is_sign_vec u \<and> length u = n \<and> is_sign_vec v \<and> length v = m \<and>
           dot u1 (mat_vec R v1) \<le> dot u (mat_vec R v)"
    using A by (intro refine_props[OF wf _ _ _ _ rf]) simp_all
  have "mat_vec_tiled b R v = mat_vec R v"
    using B wf by (simp add: mat_vec_tiled_eq wf_mat_def)
  then have c: "c = \<lparr>cut_u = u, cut_v = v, cut_w = dot u (mat_vec R v) / real (n * m)\<rparr>"
    using fc d a rf by (simp add: find_cut_def)
  have "0 \<le> dot u1 (mat_vec R v0)"
    using A by simp
  also have "\<dots> \<le> dot u (mat_vec R v)"
    using A B by linarith
  finally show ?thesis
    using B c by simp
qed

lemma sqnorm_rank1_sign:
  assumes "wf_mat n m R" "is_sign_vec u" "length u = n" "is_sign_vec v" "length v = m"
  shows "mat_sqnorm (rank1_update w u v R) =
         mat_sqnorm R - 2 * w * dot u (mat_vec R v) + w * w * (real n * real m)"
  using assms
  by (simp add: mat_sqnorm_rank1_update sqnorm_sign_vec wf_mat_def)

section \<open>Independence of the tile size\<close>

text \<open>For a well-formed residual the tiled products equal the direct ones, so a round,
  the refinement loop and the whole search compute the same result for every tile size:
  the tile size is a performance parameter only.\<close>

lemma alt_round_untiled:
  assumes "wf_mat n m R" "length v = m"
  shows "alt_round draw b m R v g =
         (let (u', g1) = signs draw (mat_vec R v) g;
              (v', g2) = signs draw (vec_mat m u' R) g1
          in (u', v', g2))"
proof -
  have rows: "list_all (\<lambda>r. length r = m) R" and n: "length R = n"
    using assms(1) by (simp_all add: wf_mat_def)
  obtain u' g1 where s1: "signs draw (mat_vec R v) g = (u', g1)"
    by (cases "signs draw (mat_vec R v) g") auto
  have "length u' = length R"
    using signs_length[of draw "mat_vec R v" g] s1 by (simp add: length_mat_vec)
  then show ?thesis
    using s1 rows assms(2) by (simp add: alt_round_def mat_vec_tiled_eq vec_mat_tiled_eq)
qed

lemma alt_round_length:
  assumes "wf_mat n m R" "length v = m" "alt_round draw b m R v g = (u', v', g')"
  shows "length u' = n \<and> length v' = m"
proof -
  obtain u1 g1 where s1: "signs draw (mat_vec R v) g = (u1, g1)"
    by (cases "signs draw (mat_vec R v) g") auto
  obtain v1 g2 where s2: "signs draw (vec_mat m u1 R) g1 = (v1, g2)"
    by (cases "signs draw (vec_mat m u1 R) g1") auto
  have "alt_round draw b m R v g = (u1, v1, g2)"
    using alt_round_untiled[OF assms(1,2), of draw b g] s1 s2 by simp
  then have "u' = u1" "v' = v1" using assms(3) by simp_all
  moreover have "length u1 = n"
    using signs_length[of draw "mat_vec R v" g] s1 assms(1) by (simp add: length_mat_vec wf_mat_def)
  moreover have "length v1 = m"
    using signs_length[of draw "vec_mat m u1 R" g1] s2 assms(1) by (simp add: wf_mat_def)
  ultimately show ?thesis by simp
qed

lemma alt_round_tile_size:
  "wf_mat n m R \<Longrightarrow> length v = m \<Longrightarrow> alt_round draw b m R v g = alt_round draw b' m R v g"
  by (simp add: alt_round_untiled)

lemma refine_tile_size:
  assumes "wf_mat n m R" "length v = m"
  shows "refine draw b m k R u v g = refine draw b' m k R u v g"
  using assms(2)
proof (induction k arbitrary: u v g)
  case (Suc k)
  obtain u' v' g' where r: "alt_round draw b m R v g = (u', v', g')"
    by (cases "alt_round draw b m R v g") auto
  have r': "alt_round draw b' m R v g = (u', v', g')"
    by (rule trans[OF alt_round_tile_size[OF assms(1) Suc.prems, symmetric] r])
  have "length v' = m" using alt_round_length[OF assms(1) Suc.prems r] by simp
  then show ?case using Suc.IH[of v' u' g'] r r' by simp
qed simp

lemma refine_length:
  assumes "wf_mat n m R" "length v = m" "refine draw b m k R u v g = (u2, v2, g2)"
  shows "length v2 = m"
  using assms(2,3)
proof (induction k arbitrary: u v g)
  case (Suc k)
  obtain u' v' g' where r: "alt_round draw b m R v g = (u', v', g')"
    by (cases "alt_round draw b m R v g") auto
  have "length v' = m" using alt_round_length[OF assms(1) Suc.prems(1) r] by simp
  then show ?case using Suc.IH[of v' u' g'] Suc.prems r by (auto split: if_splits)
qed simp

lemma find_cut_tile_size:
  assumes "wf_mat n m R"
  shows "find_cut draw cap b n m R g = find_cut draw cap b' n m R g"
proof -
  obtain v0 g1 where d: "draw_signs draw m g = (v0, g1)"
    by (cases "draw_signs draw m g") auto
  obtain u1 v1 g2 where a: "alt_round draw b m R v0 g1 = (u1, v1, g2)"
    by (cases "alt_round draw b m R v0 g1") auto
  have v0: "length v0 = m" using draw_signs_length[of draw m g] d by simp
  have a': "alt_round draw b' m R v0 g1 = (u1, v1, g2)"
    by (rule trans[OF alt_round_tile_size[OF assms v0, symmetric] a])
  have v1: "length v1 = m" using alt_round_length[OF assms v0 a] by simp
  obtain u v g3 where rf: "refine draw b m (cap - 1) R u1 v1 g2 = (u, v, g3)"
    by (cases "refine draw b m (cap - 1) R u1 v1 g2") auto
  have rf': "refine draw b' m (cap - 1) R u1 v1 g2 = (u, v, g3)"
    using rf refine_tile_size[OF assms v1] by metis
  have "length v = m" using refine_length[OF assms v1 rf] .
  then have "mat_vec_tiled b R v = mat_vec_tiled b' R v"
    using assms by (simp add: mat_vec_tiled_eq wf_mat_def)
  then show ?thesis using d a a' rf rf' by (simp add: find_cut_def)
qed

section \<open>The number of draws is bounded\<close>

text \<open>The search always ends (every loop is bounded by its fuel) and draws at most
  \<open>m\<close> bits for the initial \<open>v\<close> and \<open>n + m\<close> bits per round, for at most
  \<open>max 1 cap\<close> rounds.\<close>

lemma count_draw_step: "count_draw draw g = (b, g') \<Longrightarrow> snd g' = Suc (snd g)"
  by (auto simp: count_draw_def split: prod.splits)


lemma sign_of_count: "sign_of (count_draw draw) x g = (s, g') \<Longrightarrow> snd g' \<le> Suc (snd g)"
  by (auto simp: sign_of_def dest: count_draw_step split: if_splits prod.splits)


lemma signs_count: "signs (count_draw draw) p g = (u, g') \<Longrightarrow> snd g' \<le> snd g + length p"
proof (induction p arbitrary: g u g')
  case (Cons x xs)
  obtain s g1 where s: "sign_of (count_draw draw) x g = (s, g1)"
    by (cases "sign_of (count_draw draw) x g") auto
  obtain ss g2 where ss: "signs (count_draw draw) xs g1 = (ss, g2)"
    by (cases "signs (count_draw draw) xs g1") auto
  have "g' = g2" using Cons.prems s ss by simp
  then show ?case using sign_of_count[OF s] Cons.IH[OF ss] by simp
qed simp


lemma draw_signs_count: "draw_signs (count_draw draw) k g = (v, g') \<Longrightarrow> snd g' = snd g + k"
proof (induction k arbitrary: g v g')
  case (Suc k)
  obtain b g1 where d: "count_draw draw g = (b, g1)" by (cases "count_draw draw g") auto
  obtain ss g2 where ss: "draw_signs (count_draw draw) k g1 = (ss, g2)"
    by (cases "draw_signs (count_draw draw) k g1") auto
  have "g' = g2" using Suc.prems d ss by simp
  then show ?case using count_draw_step[OF d] Suc.IH[OF ss] by simp
qed simp


lemma alt_round_count:
  assumes "wf_mat n m R" "length v = m" "alt_round (count_draw draw) b m R v g = (u', v', g')"
  shows "snd g' \<le> snd g + (n + m)"
proof -
  obtain u1 g1 where s1: "signs (count_draw draw) (mat_vec R v) g = (u1, g1)"
    by (cases "signs (count_draw draw) (mat_vec R v) g") auto
  obtain v1 g2 where s2: "signs (count_draw draw) (vec_mat m u1 R) g1 = (v1, g2)"
    by (cases "signs (count_draw draw) (vec_mat m u1 R) g1") auto
  have "g' = g2"
    using alt_round_untiled[OF assms(1,2), of "count_draw draw" b g] s1 s2 assms(3) by simp
  moreover have "length (mat_vec R v) = n" "length (vec_mat m u1 R) = m"
    using assms(1) by (simp_all add: wf_mat_def)
  ultimately show ?thesis using signs_count[OF s1] signs_count[OF s2] by simp
qed


lemma refine_count:
  assumes "wf_mat n m R" "length v = m" "refine (count_draw draw) b m k R u v g = (u2, v2, g2)"
  shows "snd g2 \<le> snd g + k * (n + m)"
  using assms(2,3)
proof (induction k arbitrary: u v g)
  case (Suc k)
  obtain u' v' g' where r: "alt_round (count_draw draw) b m R v g = (u', v', g')"
    by (cases "alt_round (count_draw draw) b m R v g") auto
  have c: "snd g' \<le> snd g + (n + m)" using alt_round_count[OF assms(1) Suc.prems(1) r] .
  have v': "length v' = m" using alt_round_length[OF assms(1) Suc.prems(1) r] by simp
  show ?case
  proof (cases "u' = u \<and> v' = v")
    case True
    then show ?thesis using Suc.prems(2) r c by simp
  next
    case False
    then have "refine (count_draw draw) b m k R u' v' g' = (u2, v2, g2)"
      using Suc.prems(2) r by (simp del: de_Morgan_conj)
    then show ?thesis using Suc.IH[OF v'] c by fastforce
  qed
qed simp


lemma find_cut_count:
  assumes "wf_mat n m R" "find_cut (count_draw draw) cap b n m R g = (c, g')"
  shows "snd g' \<le> snd g + (m + max 1 cap * (n + m))"
proof -
  obtain v0 g1 where d: "draw_signs (count_draw draw) m g = (v0, g1)"
    by (cases "draw_signs (count_draw draw) m g") auto
  obtain u1 v1 g2 where a: "alt_round (count_draw draw) b m R v0 g1 = (u1, v1, g2)"
    by (cases "alt_round (count_draw draw) b m R v0 g1") auto
  obtain u v g3 where rf: "refine (count_draw draw) b m (cap - 1) R u1 v1 g2 = (u, v, g3)"
    by (cases "refine (count_draw draw) b m (cap - 1) R u1 v1 g2") auto
  have v0: "length v0 = m" using draw_signs_length[of "count_draw draw" m g] d by simp
  have v1: "length v1 = m" using alt_round_length[OF assms(1) v0 a] by simp
  have "g' = g3" using assms(2) d a rf by (simp add: find_cut_def Let_def)
  moreover have "snd g1 = snd g + m" using draw_signs_count[OF d] .
  moreover have "snd g2 \<le> snd g1 + (n + m)" using alt_round_count[OF assms(1) v0 a] .
  moreover have "snd g3 \<le> snd g2 + (cap - 1) * (n + m)" using refine_count[OF assms(1) v1 rf] .
  moreover have "(n + m) + (cap - 1) * (n + m) = max 1 cap * (n + m)"
    by (cases cap) simp_all
  ultimately show ?thesis by simp
qed


section \<open>Exact recovery of a rank-one sign pattern\<close>

text \<open>On a target \<open>c a b\<^sup>T\<close> with sign vectors \<open>a\<close>, \<open>b\<close> and \<open>c \<noteq> 0\<close>, every round from a
  \<open>v\<close> with \<open>b \<cdot> v \<noteq> 0\<close> returns \<open>\<plusminus>a\<close>, \<open>\<plusminus>b\<close> without drawing; when \<open>m\<close> is odd the random
  initial \<open>v\<close> always has \<open>b \<cdot> v \<noteq> 0\<close>, so the search returns \<open>(\<sigma> a, \<tau> b, c \<sigma> \<tau>)\<close>,
  whose outer product is the target.\<close>

lemma signs_nonzero:
  "list_all (\<lambda>x. x \<noteq> 0) p \<Longrightarrow> signs draw p g = (map sgn p, g)"
  by (induction p) (auto simp: sign_of_def)

lemma signs_smul_sign_vec:
  "is_sign_vec a \<Longrightarrow> k \<noteq> 0 \<Longrightarrow> signs draw (smul k a) g = (smul (sgn k) a, g)"
  by (simp add: signs_nonzero smul_sign_vec_nonzero sgn_smul_sign_vec)

lemma alt_round_rank_one:
  assumes a: "is_sign_vec a" "length a = n" "0 < n" and b: "is_sign_vec b" "length b = m"
    and c: "c \<noteq> 0" and v: "length v = m" "dot b v \<noteq> 0"
  shows "alt_round draw t m (outer c a b) v g =
         (smul (sgn (c * dot b v)) a, smul (sgn (c * sgn (c * dot b v) * real n)) b, g)"
proof -
  let ?s = "sgn (c * dot b v)"
  have wf: "wf_mat n m (outer c a b)" using a(2) b(2) by (rule wf_outer)
  have s1: "signs draw (mat_vec (outer c a b) v) g = (smul ?s a, g)"
    using a(1) c v(2) by (simp add: mat_vec_outer signs_smul_sign_vec)
  have "vec_mat m (smul ?s a) (outer c a b) = smul (c * (?s * real n)) b"
    using a b by (simp add: vec_mat_outer dot_smul_left dot_sign_vec_self)
  moreover have "c * (?s * real n) \<noteq> 0" using c v(2) a(3) by (simp add: sgn_nonzero)
  ultimately have s2: "signs draw (vec_mat m (smul ?s a) (outer c a b)) g =
      (smul (sgn (c * ?s * real n)) b, g)"
    using b(1) by (simp add: signs_smul_sign_vec mult.assoc)
  show ?thesis by (simp add: alt_round_untiled[OF wf v(1)] s1 s2)
qed

lemma refine_rank_one:
  assumes a: "is_sign_vec a" "length a = n" "0 < n" and b: "is_sign_vec b" "length b = m" "0 < m"
    and c: "c \<noteq> 0" and st: "is_sign \<sigma>" "is_sign \<tau>"
    and r: "refine draw t m k (outer c a b) (smul \<sigma> a) (smul \<tau> b) g = (u2, v2, g2)"
  shows "\<exists>\<sigma>' \<tau>'. is_sign \<sigma>' \<and> is_sign \<tau>' \<and> u2 = smul \<sigma>' a \<and> v2 = smul \<tau>' b"
  using st r
proof (induction k arbitrary: \<sigma> \<tau> g)
  case 0
  then show ?case by auto
next
  case (Suc k)
  have d: "dot b (smul \<tau> b) \<noteq> 0" using b Suc.prems(2) by (auto simp: dot_smul_sign_vec is_sign_def)
  let ?s = "sgn (c * dot b (smul \<tau> b))"
  let ?t = "sgn (c * ?s * real n)"
  have ar: "alt_round draw t m (outer c a b) (smul \<tau> b) g = (smul ?s a, smul ?t b, g)"
    using alt_round_rank_one[OF a b(1,2) c _ d] b(2) by simp
  have s: "is_sign ?s" "is_sign ?t"
    by (rule is_sign_sgn, use c d a(3) in \<open>simp add: sgn_nonzero\<close>)+
  show ?case
  proof (cases "smul ?s a = smul \<sigma> a \<and> smul ?t b = smul \<tau> b")
    case True
    then show ?thesis using Suc.prems ar by (intro exI[of _ \<sigma>] exI[of _ \<tau>]) auto
  next
    case False
    then have "refine draw t m k (outer c a b) (smul ?s a) (smul ?t b) g = (u2, v2, g2)"
      using Suc.prems(3) ar by (simp del: de_Morgan_conj)
    then show ?thesis using Suc.IH[OF s] by blast
  qed
qed

lemma find_cut_rank_one:
  assumes a: "is_sign_vec a" "length a = n" "0 < n" and b: "is_sign_vec b" "length b = m" "odd m"
    and c: "c \<noteq> 0" and fc: "find_cut draw cap t n m (outer c a b) g = (ct, g')"
  shows "\<exists>\<sigma> \<tau>. is_sign \<sigma> \<and> is_sign \<tau> \<and>
           ct = \<lparr>cut_u = smul \<sigma> a, cut_v = smul \<tau> b, cut_w = c * \<sigma> * \<tau>\<rparr>"
proof -
  have m: "0 < m" using b(3) by (cases m) simp_all
  have wf: "wf_mat n m (outer c a b)" using a(2) b(2) by (rule wf_outer)
  obtain v0 g1 where d: "draw_signs draw m g = (v0, g1)"
    by (cases "draw_signs draw m g") auto
  have v0: "length v0 = m" "is_sign_vec v0"
    using draw_signs_length[of draw m g] draw_signs_sign_vec[of draw m g] d by simp_all
  have d0: "dot b v0 \<noteq> 0" using dot_sign_vec_odd[of b v0] b v0 by simp
  let ?s = "sgn (c * dot b v0)"
  let ?t = "sgn (c * ?s * real n)"
  have ar: "alt_round draw t m (outer c a b) v0 g1 = (smul ?s a, smul ?t b, g1)"
    using alt_round_rank_one[OF a b(1,2) c v0(1) d0] .
  have st: "is_sign ?s" "is_sign ?t"
    by (rule is_sign_sgn, use c d0 a(3) in \<open>simp add: sgn_nonzero\<close>)+
  obtain u v g3 where rf: "refine draw t m (cap - 1) (outer c a b) (smul ?s a) (smul ?t b) g1 = (u, v, g3)"
    by (cases "refine draw t m (cap - 1) (outer c a b) (smul ?s a) (smul ?t b) g1") auto
  obtain \<sigma> \<tau> where pair: "is_sign \<sigma>" "is_sign \<tau>" "u = smul \<sigma> a" "v = smul \<tau> b"
    using refine_rank_one[OF a b(1,2) m c st rf] by blast
  have "mat_vec_tiled t (outer c a b) v = mat_vec (outer c a b) v"
    using wf pair(4) b(2) by (simp add: mat_vec_tiled_eq wf_mat_def)
  also have "\<dots> = smul (c * (\<tau> * real m)) a"
    using pair(4) b by (simp add: mat_vec_outer dot_smul_sign_vec)
  finally have "dot u (mat_vec_tiled t (outer c a b) v) = \<sigma> * (c * (\<tau> * real m)) * real n"
    using pair(3) a by (simp add: dot_smul_left dot_smul_sign_vec)
  then have w: "dot u (mat_vec_tiled t (outer c a b) v) / real (n * m) = c * \<sigma> * \<tau>"
    using a(3) m by (simp add: field_simps)
  have "ct = \<lparr>cut_u = u, cut_v = v, cut_w = dot u (mat_vec_tiled t (outer c a b) v) / real (n * m)\<rparr>"
    using fc d ar rf by (simp add: find_cut_def)
  then show ?thesis using pair w by auto
qed

section \<open>Properties of the search\<close>

text \<open>Each half-step is a best response: the sign vector chosen for
  \<open>p\<close> (ties broken by the generator) has the length of \<open>p\<close>, only entries \<open>\<plusminus>1\<close>,
  and no sign vector \<open>u\<close> gives a larger \<open>u \<cdot> p\<close>; the value reached is \<open>\<Sum>|p\<^sub>i|\<close>.\<close>

theorem signs_best_response:
  assumes "is_sign_vec u"
  shows "is_sign_vec (fst (signs draw p g)) \<and> length (fst (signs draw p g)) = length p \<and>
         dot (fst (signs draw p g)) p = sum_list (map abs p) \<and>
         dot u p \<le> dot (fst (signs draw p g)) p"
  using assms by (simp add: signs_sign_vec dot_signs dot_sign_vec_le)

text \<open>The weight \<open>u\<^sup>T R v / (n m)\<close> that the search returns is
  the best scalar for its sign pattern: subtracting \<open>w\<cdot>(u v\<^sup>T)\<close> with the returned
  weight leaves a residual whose squared norm is at most the one any other weight
  \<open>w'\<close> leaves.\<close>

theorem find_cut_weight_optimal:
  assumes wf: "wf_mat n m R" and pos: "0 < n" "0 < m"
    and fc: "find_cut draw cap b n m R g = (c, g')"
  shows "mat_sqnorm (rank1_update (cut_w c) (cut_u c) (cut_v c) R)
         \<le> mat_sqnorm (rank1_update w' (cut_u c) (cut_v c) R)"
proof -
  let ?s = "dot (cut_u c) (mat_vec R (cut_v c))" and ?N = "real n * real m"
  note P = find_cut_props[OF wf fc]
  have N: "0 < ?N" using pos by simp
  have s: "?s = cut_w c * ?N"
    using P pos by simp
  have "mat_sqnorm (rank1_update w' (cut_u c) (cut_v c) R)
        - mat_sqnorm (rank1_update (cut_w c) (cut_u c) (cut_v c) R)
        = ?N * (w' - cut_w c)\<^sup>2"
    using P wf by (simp add: sqnorm_rank1_sign s power2_eq_square algebra_simps)
  moreover have "0 \<le> ?N * (w' - cut_w c)\<^sup>2"
    using N by simp
  ultimately show ?thesis by linarith
qed

end
