(* ===== verification/Engine.thy ===== *)
theory Engine
  imports CutFinder
begin

text \<open>
  SignedCutEngine (spec sections 3 and 4.1; \<open>cuts_v2::sct_helper::SctHelper\<close>, an
  external crate, so modelled from the spec).  The state record \<open>sct\<close> holds the
  residual matrix, the append-only list of cuts and the configuration.  \<open>sct_new\<close>
  is \<open>SctHelper::new\<close>, \<open>sct_cut\<close> one call of \<open>cut\<close> (discover_next),
  \<open>squared_norm_l2\<close> and \<open>expand\<close> the read-only queries.  The engine's reachable
  states are an inductive predicate: a state built by \<open>sct_new\<close>, then any sequence
  of \<open>sct_cut\<close> calls with any generator states.  The invariant \<open>sct_inv\<close> (shape,
  sign validity, and \<open>residual + expand = target\<close>) holds in all of them.  The
  abstract contract \<open>greedy_seq\<close> (a sequence of greedy sign cuts) is implemented by
  every run of cuts (\<open>sct_run_greedy\<close>), a run does not depend on the tile size, and
  a rank-one sign target is cleared by one cut.  The examples evaluate cuts on a
  \<open>3 \<times> 2\<close> target with the generator \<open>lcg_draw\<close>.
\<close>

datatype config_error = ZeroRows | ZeroCols | ZeroTileSize

record sct =
  residual :: mat
  cuts :: "cut list"
  nrows :: nat
  ncols :: nat
  tile_size :: nat
  target_count :: nat

definition sct_new :: "mat \<Rightarrow> nat \<Rightarrow> nat \<Rightarrow> nat \<Rightarrow> nat \<Rightarrow> config_error + sct" where
  "sct_new T n m b k =
     (if n = 0 then Inl ZeroRows
      else if m = 0 then Inl ZeroCols
      else if b = 0 then Inl ZeroTileSize
      else Inr \<lparr>residual = T, cuts = [], nrows = n, ncols = m, tile_size = b,
                target_count = k\<rparr>)"

definition sct_cut :: "'g draw \<Rightarrow> nat \<Rightarrow> sct \<Rightarrow> 'g \<Rightarrow> (cut \<times> real) \<times> sct \<times> 'g" where
  "sct_cut draw cap s g =
     (let (c, g') = find_cut draw cap (tile_size s) (nrows s) (ncols s) (residual s) g;
          R' = rank1_update_tiled (tile_size s) (cut_w c) (cut_u c) (cut_v c) (residual s);
          s' = s\<lparr>residual := R', cuts := cuts s @ [c]\<rparr>
      in ((c, mat_sqnorm R'), s', g'))"

definition squared_norm_l2 :: "sct \<Rightarrow> real" where
  "squared_norm_l2 s = mat_sqnorm (residual s)"

definition cut_mat :: "cut \<Rightarrow> mat" where
  "cut_mat c = outer (cut_w c) (cut_u c) (cut_v c)"

definition expand :: "sct \<Rightarrow> mat" where
  "expand s = foldl (\<lambda>A c. mat_add A (cut_mat c)) (zero_mat (nrows s) (ncols s)) (cuts s)"

text \<open>A caller's loop: \<open>k\<close> calls of \<open>cut\<close>, collecting the norm each call reports.\<close>

fun sct_run :: "'g draw \<Rightarrow> nat \<Rightarrow> nat \<Rightarrow> sct \<Rightarrow> 'g \<Rightarrow> real list \<times> sct \<times> 'g" where
  "sct_run draw cap 0 s g = ([], s, g)"
| "sct_run draw cap (Suc k) s g =
     (let ((c, nrm), s', g') = sct_cut draw cap s g;
          (ns, s'', g'') = sct_run draw cap k s' g'
      in (nrm # ns, s'', g''))"

inductive sct_reach :: "'g draw \<Rightarrow> nat \<Rightarrow> mat \<Rightarrow> sct \<Rightarrow> bool"
  for draw :: "'g draw" and cap :: nat and T :: mat where
  init: "wf_mat n m T \<Longrightarrow> sct_new T n m b k = Inr s \<Longrightarrow> sct_reach draw cap T s"
| step: "sct_reach draw cap T s \<Longrightarrow> sct_cut draw cap s g = (r, s', g') \<Longrightarrow>
         sct_reach draw cap T s'"

definition cut_ok :: "nat \<Rightarrow> nat \<Rightarrow> cut \<Rightarrow> bool" where
  "cut_ok n m c \<longleftrightarrow>
     is_sign_vec (cut_u c) \<and> length (cut_u c) = n \<and> is_sign_vec (cut_v c) \<and> length (cut_v c) = m"

definition sct_inv :: "mat \<Rightarrow> sct \<Rightarrow> bool" where
  "sct_inv T s \<longleftrightarrow>
     0 < nrows s \<and> 0 < ncols s \<and> 0 < tile_size s \<and>
     wf_mat (nrows s) (ncols s) (residual s) \<and>
     list_all (cut_ok (nrows s) (ncols s)) (cuts s) \<and>
     mat_add (residual s) (expand s) = T"

text \<open>
  The abstract contract of the engine (spec sections 4.1 and 4.2): a greedy sign-cut
  decomposition is a sequence of cuts in which each cut has sign vectors of the right
  lengths, a non-negative gain \<open>u\<^sup>T R v\<close> on the residual \<open>R\<close> left by the cuts before it,
  and the weight \<open>u\<^sup>T R v / (n m)\<close>; applying a cut subtracts its outer product.
  \<open>greedy_seq\<close> checks a given sequence, so it is executable.
\<close>

definition greedy_cut :: "nat \<Rightarrow> nat \<Rightarrow> mat \<Rightarrow> cut \<Rightarrow> bool" where
  "greedy_cut n m R c \<longleftrightarrow>
     cut_ok n m c \<and> 0 \<le> dot (cut_u c) (mat_vec R (cut_v c)) \<and>
     cut_w c = dot (cut_u c) (mat_vec R (cut_v c)) / real (n * m)"


definition apply_cut :: "mat \<Rightarrow> cut \<Rightarrow> mat" where
  "apply_cut R c = rank1_update (cut_w c) (cut_u c) (cut_v c) R"


fun greedy_seq :: "nat \<Rightarrow> nat \<Rightarrow> mat \<Rightarrow> cut list \<Rightarrow> bool" where
  "greedy_seq n m R [] = True"
| "greedy_seq n m R (c # cs) = (greedy_cut n m R c \<and> greedy_seq n m (apply_cut R c) cs)"


definition cut_sum :: "nat \<Rightarrow> nat \<Rightarrow> cut list \<Rightarrow> mat" where
  "cut_sum n m cs = foldl (\<lambda>A c. mat_add A (cut_mat c)) (zero_mat n m) cs"


text \<open>A small example used by the witnesses below: a \<open>3 \<times> 2\<close> target, tile size 2.\<close>

abbreviation ex_target :: mat where
  "ex_target \<equiv> [[3, 1], [1, 2], [0, 5]]"

abbreviation ex_state :: sct where
  "ex_state \<equiv> \<lparr>residual = ex_target, cuts = [], nrows = 3, ncols = 2, tile_size = 2,
                target_count = 1\<rparr>"

abbreviation ex_cut :: cut where
  "ex_cut \<equiv> \<lparr>cut_u = [-1, -1, -1], cut_v = [-1, -1], cut_w = 2\<rparr>"

abbreviation ex_state1 :: sct where
  "ex_state1 \<equiv> \<lparr>residual = [[1, -1], [-1, 0], [-2, 3]], cuts = [ex_cut], nrows = 3, ncols = 2,
                 tile_size = 2, target_count = 1\<rparr>"

abbreviation ex_cut2 :: cut where
  "ex_cut2 \<equiv> \<lparr>cut_u = [-1, 1, 1], cut_v = [-1, 1], cut_w = 4 / 3\<rparr>"

abbreviation ex_state2 :: sct where
  "ex_state2 \<equiv> \<lparr>residual = [[- (1 / 3), 1 / 3], [1 / 3, - (4 / 3)], [- (2 / 3), 5 / 3]],
                 cuts = [ex_cut, ex_cut2], nrows = 3, ncols = 2, tile_size = 2,
                 target_count = 1\<rparr>"

section \<open>Invariant of the engine\<close>

lemma wf_expand_fold:
  "wf_mat n m A \<Longrightarrow> list_all (cut_ok n m) cs \<Longrightarrow>
   wf_mat n m (foldl (\<lambda>A c. mat_add A (cut_mat c)) A cs)"
  by (induction cs arbitrary: A) (simp_all add: wf_mat_add wf_outer cut_mat_def cut_ok_def)

lemma wf_expand: "list_all (cut_ok (nrows s) (ncols s)) (cuts s) \<Longrightarrow> wf_mat (nrows s) (ncols s) (expand s)"
  by (simp add: expand_def wf_expand_fold wf_zero_mat)

lemma expand_snoc:
  "expand (s\<lparr>residual := R', cuts := cuts s @ [c]\<rparr>) = mat_add (expand s) (cut_mat c)"
  by (simp add: expand_def)

lemma sct_cut_explicit:
  assumes inv: "sct_inv T s"
    and fc: "find_cut draw cap (tile_size s) (nrows s) (ncols s) (residual s) g = (c, g')"
  shows "sct_cut draw cap s g =
         ((c, mat_sqnorm (rank1_update (cut_w c) (cut_u c) (cut_v c) (residual s))),
          s\<lparr>residual := rank1_update (cut_w c) (cut_u c) (cut_v c) (residual s),
            cuts := cuts s @ [c]\<rparr>, g')"
proof -
  have "wf_mat (nrows s) (ncols s) (residual s)" using inv by (simp add: sct_inv_def)
  with find_cut_props[OF this fc]
  have "rank1_update_tiled (tile_size s) (cut_w c) (cut_u c) (cut_v c) (residual s)
        = rank1_update (cut_w c) (cut_u c) (cut_v c) (residual s)"
    by (simp add: rank1_update_tiled_eq wf_mat_def)
  with fc show ?thesis by (simp add: sct_cut_def Let_def)
qed

lemma sct_cut_inv:
  assumes inv: "sct_inv T s" and st: "sct_cut draw cap s g = (r, s', g')"
  shows "sct_inv T s'"
proof -
  obtain c g1 where fc: "find_cut draw cap (tile_size s) (nrows s) (ncols s) (residual s) g = (c, g1)"
    by (cases "find_cut draw cap (tile_size s) (nrows s) (ncols s) (residual s) g") auto
  let ?R = "residual s" and ?n = "nrows s" and ?m = "ncols s"
  have wf: "wf_mat ?n ?m ?R" using inv by (simp add: sct_inv_def)
  note P = find_cut_props[OF wf fc]
  have s': "s' = s\<lparr>residual := rank1_update (cut_w c) (cut_u c) (cut_v c) ?R, cuts := cuts s @ [c]\<rparr>"
    using st sct_cut_explicit[OF inv fc] by simp
  have okc: "cut_ok ?n ?m c" using P by (simp add: cut_ok_def)
  have cs: "list_all (cut_ok ?n ?m) (cuts s)" using inv by (simp add: sct_inv_def)
  have wfE: "wf_mat ?n ?m (expand s)" using cs by (rule wf_expand)
  have "mat_add (rank1_update (cut_w c) (cut_u c) (cut_v c) ?R) (mat_add (expand s) (cut_mat c))
        = mat_add ?R (expand s)"
    using P wf wfE by (simp add: cut_mat_def rank1_update_mat_add wf_mat_def)
  then show ?thesis
    using inv s' okc wf P by (simp add: sct_inv_def expand_snoc wf_rank1_update)
qed

lemma sct_new_inv:
  "wf_mat n m T \<Longrightarrow> sct_new T n m b k = Inr s \<Longrightarrow> sct_inv T s"
  by (auto simp: sct_new_def sct_inv_def expand_def mat_add_zero_mat split: if_splits)

lemma sct_new_fields:
  "sct_new T n m b k = Inr s \<Longrightarrow>
   residual s = T \<and> cuts s = [] \<and> nrows s = n \<and> ncols s = m \<and> tile_size s = b \<and> target_count s = k"
  by (auto simp: sct_new_def split: if_splits)

lemma sct_reach_inv: "sct_reach draw cap T s \<Longrightarrow> sct_inv T s"
proof (induction rule: sct_reach.induct)
  case (init n m b k s)
  then show ?case by (rule sct_new_inv)
next
  case (step s g r s' g')
  then show ?case by (blast intro: sct_cut_inv)
qed

section \<open>One cut, and a run of cuts\<close>

lemma sct_cut_step:
  assumes inv: "sct_inv T s" and st: "sct_cut draw cap s g = ((c, nrm), s', g')"
  shows "cuts s' = cuts s @ [c] \<and> cut_ok (nrows s) (ncols s) c \<and>
         nrows s' = nrows s \<and> ncols s' = ncols s \<and> tile_size s' = tile_size s \<and>
         target_count s' = target_count s \<and> nrm = squared_norm_l2 s' \<and>
         squared_norm_l2 s' = squared_norm_l2 s
           - (dot (cut_u c) (mat_vec (residual s) (cut_v c)))\<^sup>2 / (real (nrows s) * real (ncols s))"
proof -
  obtain c' g1 where fc: "find_cut draw cap (tile_size s) (nrows s) (ncols s) (residual s) g = (c', g1)"
    by (cases "find_cut draw cap (tile_size s) (nrows s) (ncols s) (residual s) g") auto
  let ?R = "residual s" and ?n = "nrows s" and ?m = "ncols s"
  have wf: "wf_mat ?n ?m ?R" and pos: "0 < ?n" "0 < ?m"
    using inv by (simp_all add: sct_inv_def)
  have c': "c' = c" and s': "s' = s\<lparr>residual := rank1_update (cut_w c) (cut_u c) (cut_v c) ?R,
      cuts := cuts s @ [c]\<rparr>" and nrm: "nrm = mat_sqnorm (rank1_update (cut_w c) (cut_u c) (cut_v c) ?R)"
    using st sct_cut_explicit[OF inv fc] by auto
  note P = find_cut_props[OF wf fc[unfolded c']]
  let ?s = "dot (cut_u c) (mat_vec ?R (cut_v c))" and ?N = "real ?n * real ?m"
  have "mat_sqnorm (rank1_update (cut_w c) (cut_u c) (cut_v c) ?R)
        = mat_sqnorm ?R - 2 * (?s / ?N) * ?s + (?s / ?N) * (?s / ?N) * ?N"
    using P wf by (simp add: sqnorm_rank1_sign)
  also have "\<dots> = mat_sqnorm ?R - ?s\<^sup>2 / ?N"
    using pos by (simp add: field_simps power2_eq_square)
  finally show ?thesis
    using P s' nrm by (simp add: squared_norm_l2_def cut_ok_def)
qed

lemma sct_cut_mono:
  "sct_inv T s \<Longrightarrow> sct_cut draw cap s g = ((c, nrm), s', g') \<Longrightarrow>
   squared_norm_l2 s' \<le> squared_norm_l2 s"
  using sct_cut_step[of T s draw cap g c nrm s' g'] by (simp add: sct_inv_def)

lemma sct_run_props:
  assumes "sct_inv T s" "sct_run draw cap k s g = (ns, s', g')"
  shows "sct_inv T s' \<and> length ns = k \<and> length (cuts s') = length (cuts s) + k \<and>
         take (length (cuts s)) (cuts s') = cuts s \<and>
         nrows s' = nrows s \<and> ncols s' = ncols s \<and>
         tile_size s' = tile_size s \<and> target_count s' = target_count s \<and>
         sorted_wrt (\<ge>) (squared_norm_l2 s # ns) \<and>
         last (squared_norm_l2 s # ns) = squared_norm_l2 s'"
  using assms
proof (induction k arbitrary: s g ns s' g')
  case 0
  then show ?case by simp
next
  case (Suc k)
  obtain c nrm s1 g1 where st: "sct_cut draw cap s g = ((c, nrm), s1, g1)"
    by (cases "sct_cut draw cap s g") auto
  obtain ns1 s2 g2 where rn: "sct_run draw cap k s1 g1 = (ns1, s2, g2)"
    by (cases "sct_run draw cap k s1 g1") auto
  have ns: "ns = nrm # ns1" and s': "s' = s2"
    using Suc.prems(2) st rn by simp_all
  note S = sct_cut_step[OF Suc.prems(1) st]
  have inv1: "sct_inv T s1" using Suc.prems(1) st by (rule sct_cut_inv)
  note IH = Suc.IH[OF inv1 rn]
  have le1: "\<forall>x\<in>set ns1. x \<le> nrm"
    using IH S by simp
  have le0: "nrm \<le> squared_norm_l2 s"
    using S Suc.prems(1) by (simp add: sct_inv_def)
  have all: "\<forall>x\<in>set ns. x \<le> squared_norm_l2 s"
    using le1 le0 ns by auto
  have "take (length (cuts s)) (cuts s2) = take (length (cuts s)) (take (Suc (length (cuts s))) (cuts s2))"
    by simp
  also have "\<dots> = cuts s"
    using IH S by simp
  finally have tk: "take (length (cuts s)) (cuts s2) = cuts s" .
  show ?case
    using IH S ns s' tk all le1 by simp
qed

lemma sct_run_reach:
  "sct_reach draw cap T s \<Longrightarrow> sct_run draw cap k s g = (ns, s', g') \<Longrightarrow> sct_reach draw cap T s'"
proof (induction k arbitrary: s g ns s' g')
  case (Suc k)
  obtain c nrm s1 g1 where st: "sct_cut draw cap s g = ((c, nrm), s1, g1)"
    by (cases "sct_cut draw cap s g") auto
  obtain ns1 s2 g2 where rn: "sct_run draw cap k s1 g1 = (ns1, s2, g2)"
    by (cases "sct_run draw cap k s1 g1") auto
  from Suc.prems(1) st have "sct_reach draw cap T s1" by (rule sct_reach.step)
  with Suc.IH rn Suc.prems(2) st show ?case by simp
qed simp

lemma sct_cut_count:
  assumes "sct_inv T s" "sct_cut (count_draw draw) cap s g = (r, s', g')"
  shows "snd g' \<le> snd g + (ncols s + max 1 cap * (nrows s + ncols s))"
proof -
  obtain c g1 where fc: "find_cut (count_draw draw) cap (tile_size s) (nrows s) (ncols s) (residual s) g = (c, g1)"
    by (cases "find_cut (count_draw draw) cap (tile_size s) (nrows s) (ncols s) (residual s) g") auto
  have wf: "wf_mat (nrows s) (ncols s) (residual s)" using assms(1) by (simp add: sct_inv_def)
  have "g' = g1" using assms(2) fc by (simp add: sct_cut_def Let_def)
  then show ?thesis using find_cut_count[OF wf fc] by simp
qed


lemma sct_cut_rank_one:
  assumes a: "is_sign_vec a" "length a = n" "0 < n" and b: "is_sign_vec b" "length b = m" "odd m"
    and c: "c \<noteq> 0" and new: "sct_new (outer c a b) n m t k = Inr s"
    and st: "sct_cut draw cap s g = ((ct, x), s', g')"
  shows "residual s' = zero_mat n m \<and> expand s' = outer c a b \<and> x = 0"
proof -
  have wf: "wf_mat n m (outer c a b)" using a(2) b(2) by (rule wf_outer)
  have inv: "sct_inv (outer c a b) s" using wf new by (rule sct_new_inv)
  note F = sct_new_fields[OF new]
  obtain ct' g1 where fc: "find_cut draw cap (tile_size s) (nrows s) (ncols s) (residual s) g = (ct', g1)"
    by (cases "find_cut draw cap (tile_size s) (nrows s) (ncols s) (residual s) g") auto
  obtain \<sigma> \<tau> where p: "is_sign \<sigma>" "is_sign \<tau>"
    "ct' = \<lparr>cut_u = smul \<sigma> a, cut_v = smul \<tau> b, cut_w = c * \<sigma> * \<tau>\<rparr>"
    using find_cut_rank_one[OF a b c, of draw cap "tile_size s" g ct' g1] fc F by auto
  have o: "outer (c * \<sigma> * \<tau>) (smul \<sigma> a) (smul \<tau> b) = outer c a b"
    using p(1,2) by (rule outer_sign_pair)
  have z: "rank1_update (c * \<sigma> * \<tau>) (smul \<sigma> a) (smul \<tau> b) (outer c a b) = zero_mat n m"
    using rank1_update_outer_self[of "c * \<sigma> * \<tau>" "smul \<sigma> a" "smul \<tau> b"] o a(2) b(2) by simp
  have "sct_cut draw cap s g = ((ct', mat_sqnorm (zero_mat n m)),
          s\<lparr>residual := zero_mat n m, cuts := cuts s @ [ct']\<rparr>, g1)"
    using sct_cut_explicit[OF inv fc] F p(3) z by simp
  then have s': "s' = s\<lparr>residual := zero_mat n m, cuts := [ct']\<rparr>" and x: "x = mat_sqnorm (zero_mat n m)"
    using st F by auto
  have "expand s' = mat_add (zero_mat n m) (outer c a b)"
    using s' F p(3) o by (simp add: expand_def cut_mat_def)
  also have "\<dots> = outer c a b" using wf by (rule zero_mat_add)
  finally show ?thesis using s' x by (simp add: mat_sqnorm_zero_mat)
qed

section \<open>The engine implements the greedy decomposition\<close>

lemma sct_cut_greedy:
  assumes "sct_inv T s" "sct_cut draw cap s g = (r, s', g')"
  shows "\<exists>c. cuts s' = cuts s @ [c] \<and> greedy_cut (nrows s) (ncols s) (residual s) c \<and>
             residual s' = apply_cut (residual s) c \<and> nrows s' = nrows s \<and> ncols s' = ncols s"
proof -
  obtain c g1 where fc: "find_cut draw cap (tile_size s) (nrows s) (ncols s) (residual s) g = (c, g1)"
    by (cases "find_cut draw cap (tile_size s) (nrows s) (ncols s) (residual s) g") auto
  have wf: "wf_mat (nrows s) (ncols s) (residual s)" using assms(1) by (simp add: sct_inv_def)
  have "greedy_cut (nrows s) (ncols s) (residual s) c"
    using find_cut_props[OF wf fc] by (simp add: greedy_cut_def cut_ok_def)
  then show ?thesis
    using sct_cut_explicit[OF assms(1) fc] assms(2) by (auto simp: apply_cut_def)
qed


lemma sct_run_greedy:
  assumes "sct_inv T s" "sct_run draw cap k s g = (ns, s', g')"
  shows "\<exists>cs. cuts s' = cuts s @ cs \<and> length cs = k \<and>
              greedy_seq (nrows s) (ncols s) (residual s) cs \<and> residual s' = foldl apply_cut (residual s) cs"
  using assms
proof (induction k arbitrary: s g ns s' g')
  case (Suc k)
  obtain c x s1 g1 where st: "sct_cut draw cap s g = ((c, x), s1, g1)"
    by (cases "sct_cut draw cap s g") auto
  obtain ns1 s2 g2 where rn: "sct_run draw cap k s1 g1 = (ns1, s2, g2)"
    by (cases "sct_run draw cap k s1 g1") auto
  have inv1: "sct_inv T s1" using Suc.prems(1) st by (rule sct_cut_inv)
  obtain c' where c': "cuts s1 = cuts s @ [c']" "greedy_cut (nrows s) (ncols s) (residual s) c'"
    "residual s1 = apply_cut (residual s) c'" "nrows s1 = nrows s" "ncols s1 = ncols s"
    using sct_cut_greedy[OF Suc.prems(1) st] by blast
  obtain cs where cs: "cuts s2 = cuts s1 @ cs" "length cs = k"
    "greedy_seq (nrows s1) (ncols s1) (residual s1) cs" "residual s2 = foldl apply_cut (residual s1) cs"
    using Suc.IH[OF inv1 rn] by blast
  have "s' = s2" using Suc.prems(2) st rn by simp
  then show ?case using c' cs by (intro exI[of _ "c' # cs"]) simp
qed simp


lemma sct_run_norm_le:
  assumes "sct_inv T s" "sct_run draw cap k s g = (ns, s', g')"
  shows "squared_norm_l2 s' \<le> squared_norm_l2 s"
  using assms
proof (induction k arbitrary: s g ns s' g')
  case (Suc k)
  obtain c x s1 g1 where st: "sct_cut draw cap s g = ((c, x), s1, g1)"
    by (cases "sct_cut draw cap s g") auto
  obtain ns1 s2 g2 where rn: "sct_run draw cap k s1 g1 = (ns1, s2, g2)"
    by (cases "sct_run draw cap k s1 g1") auto
  have inv1: "sct_inv T s1" using Suc.prems(1) st by (rule sct_cut_inv)
  have "squared_norm_l2 s2 \<le> squared_norm_l2 s1" using Suc.IH[OF inv1 rn] .
  moreover have "squared_norm_l2 s1 \<le> squared_norm_l2 s" using Suc.prems(1) st by (rule sct_cut_mono)
  moreover have "s' = s2" using Suc.prems(2) st rn by simp
  ultimately show ?case by simp
qed simp


section \<open>Independence of the tile size\<close>

text \<open>Changing the tile size of a well-formed engine changes nothing but that field, for
  one cut and for a run of cuts.\<close>

lemma sct_cut_tile_size:
  assumes "sct_inv T s" "sct_cut draw cap s g = (r, s', g')"
  shows "sct_cut draw cap (s\<lparr>tile_size := b'\<rparr>) g = (r, s'\<lparr>tile_size := b'\<rparr>, g')"
proof -
  have wf: "wf_mat (nrows s) (ncols s) (residual s)" using assms(1) by (simp add: sct_inv_def)
  obtain c g1 where fc: "find_cut draw cap (tile_size s) (nrows s) (ncols s) (residual s) g = (c, g1)"
    by (cases "find_cut draw cap (tile_size s) (nrows s) (ncols s) (residual s) g") auto
  have fc': "find_cut draw cap b' (nrows s) (ncols s) (residual s) g = (c, g1)"
    by (rule trans[OF find_cut_tile_size[OF wf, symmetric] fc])
  have "length (cut_u c) = length (residual s)"
    using find_cut_props[OF wf fc] wf by (simp add: wf_mat_def)
  then have "rank1_update_tiled b' (cut_w c) (cut_u c) (cut_v c) (residual s) =
             rank1_update_tiled (tile_size s) (cut_w c) (cut_u c) (cut_v c) (residual s)"
    by (simp add: rank1_update_tiled_eq)
  then show ?thesis using assms(2) fc fc' by (auto simp: sct_cut_def Let_def)
qed

lemma sct_inv_tile_size:
  "sct_inv T s \<Longrightarrow> 0 < b' \<Longrightarrow> sct_inv T (s\<lparr>tile_size := b'\<rparr>)"
  by (simp add: sct_inv_def expand_def)

lemma sct_run_tile_size:
  assumes "sct_inv T s" "0 < b'" "sct_run draw cap k s g = (ns, s', g')"
  shows "sct_run draw cap k (s\<lparr>tile_size := b'\<rparr>) g = (ns, s'\<lparr>tile_size := b'\<rparr>, g')"
  using assms(1,3)
proof (induction k arbitrary: s g ns s' g')
  case (Suc k)
  obtain c x s1 g1 where st: "sct_cut draw cap s g = ((c, x), s1, g1)"
    by (cases "sct_cut draw cap s g") auto
  obtain ns1 s2 g2 where rn: "sct_run draw cap k s1 g1 = (ns1, s2, g2)"
    by (cases "sct_run draw cap k s1 g1") auto
  have inv1: "sct_inv T s1" using Suc.prems(1) st by (rule sct_cut_inv)
  show ?case
    using Suc.prems(2) st rn sct_cut_tile_size[OF Suc.prems(1) st, of b'] Suc.IH[OF inv1 rn] by simp
qed simp

lemma sct_new_tile_size:
  "sct_new T n m b k = Inr s \<Longrightarrow> 0 < b' \<Longrightarrow> sct_new T n m b' k = Inr (s\<lparr>tile_size := b'\<rparr>)"
  by (auto simp: sct_new_def split: if_splits)

lemma sct_new_empty_tile_size:
  "n = 0 \<or> m = 0 \<Longrightarrow> sct_new T n m b k = sct_new T n m b' k"
  by (auto simp: sct_new_def)

section \<open>Examples\<close>

lemma ex_wf: "wf_mat 3 2 ex_target"
  by (simp add: wf_mat_def)

lemma ex_new: "sct_new ex_target 3 2 2 1 = Inr ex_state"
  by (simp add: sct_new_def)

lemma ex_reach: "sct_reach lcg_draw 1 ex_target ex_state"
  by (rule sct_reach.init[of 3 2 _ 2 1]) (simp_all add: wf_mat_def sct_new_def)

lemma ex_step: "sct_cut lcg_draw 1 ex_state 0 = ((ex_cut, 16), ex_state1, 5624)"
  by (simp add: sct_cut_def search_eval_simps)

lemma ex_reach1: "sct_reach lcg_draw 1 ex_target ex_state1"
  using ex_reach ex_step by (rule sct_reach.step)

lemma ex_step2: "sct_cut lcg_draw 1 ex_state1 5624 = ((ex_cut2, 16 / 3), ex_state2, 51790)"
  by (simp add: sct_cut_def search_eval_simps)

section \<open>Properties of the engine\<close>

text \<open>\<open>create\<close> fails with a configuration error exactly when the row count,
  the column count or the tile size is zero; otherwise the new engine holds the target
  as its residual, no cuts, the given target count, reconstructs the zero matrix, and
  reports the target's own squared norm.\<close>

theorem sct_new_spec:
  "(\<exists>e. sct_new T n m b k = Inl e) = (n = 0 \<or> m = 0 \<or> b = 0) \<and>
   (0 < n \<and> 0 < m \<and> 0 < b \<longrightarrow>
     (\<exists>s. sct_new T n m b k = Inr s \<and> residual s = T \<and> cuts s = [] \<and> target_count s = k \<and>
          expand s = zero_mat n m \<and> squared_norm_l2 s = mat_sqnorm T))"
  by (auto simp: sct_new_def expand_def squared_norm_l2_def)

theorem sct_new_spec_example:
  "(\<exists>e. sct_new ex_target 3 2 2 1 = Inl e) = (3 = (0::nat) \<or> 2 = (0::nat) \<or> 2 = (0::nat)) \<and>
   (\<exists>s. sct_new ex_target 3 2 2 1 = Inr s \<and> residual s = ex_target \<and> cuts s = [] \<and>
        target_count s = 1 \<and> expand s = zero_mat 3 2 \<and> squared_norm_l2 s = 40)"
proof -
  have "mat_sqnorm ex_target = 40" by (simp add: mat_sqnorm_def)
  then show ?thesis using sct_new_spec[of ex_target 3 2 2 1] by simp
qed

text \<open>One call of \<open>cut\<close> on a reachable engine reports the squared
  norm of the new residual, and that norm is the old one minus \<open>(u\<^sup>T R v)\<^sup>2 / (n m)\<close>,
  where \<open>R\<close> is the residual the search ran on.\<close>

theorem sct_cut_norm_decrease:
  assumes "sct_reach draw cap T s" "sct_cut draw cap s g = ((c, nrm), s', g')"
  shows "nrm = squared_norm_l2 s' \<and>
         squared_norm_l2 s' = squared_norm_l2 s
           - (dot (cut_u c) (mat_vec (residual s) (cut_v c)))\<^sup>2 / (real (nrows s) * real (ncols s))"
  using sct_cut_step[OF sct_reach_inv[OF assms(1)] assms(2)] by simp

theorem sct_cut_norm_decrease_example:
  "16 = squared_norm_l2 ex_state1 \<and>
   squared_norm_l2 ex_state1 = squared_norm_l2 ex_state
     - (dot (cut_u ex_cut) (mat_vec (residual ex_state) (cut_v ex_cut)))\<^sup>2 / (real 3 * real 2)"
  using sct_cut_norm_decrease[OF ex_reach ex_step] by simp

text \<open>Monotonicity: for every target, tile size, round cap and generator
  state, the squared norm of the residual never increases across a call of \<open>cut\<close>.\<close>

theorem sct_cut_monotone:
  assumes "sct_reach draw cap T s" "sct_cut draw cap s g = (r, s', g')"
  shows "squared_norm_l2 s' \<le> squared_norm_l2 s"
  using assms sct_reach_inv sct_cut_mono by (metis prod.collapse)

theorem sct_cut_monotone_example:
  "squared_norm_l2 ex_state1 \<le> squared_norm_l2 ex_state \<and> squared_norm_l2 ex_state1 = 16"
proof -
  have "squared_norm_l2 ex_state1 = 16" by (simp add: squared_norm_l2_def mat_sqnorm_def)
  then show ?thesis using sct_cut_monotone[OF ex_reach ex_step] by simp
qed

text \<open>Reconstruction identity: in every reachable state the re-summed
  cuts (\<open>expand\<close>) equal target minus residual, and the residual equals target minus
  the sum of all cuts' outer products.\<close>

theorem sct_reconstruct:
  assumes "sct_reach draw cap T s"
  shows "residual s = mat_sub T (expand s) \<and> expand s = mat_sub T (residual s)"
proof -
  have inv: "sct_inv T s" using assms by (rule sct_reach_inv)
  then have wfR: "wf_mat (nrows s) (ncols s) (residual s)"
    and wfE: "wf_mat (nrows s) (ncols s) (expand s)"
    and eq: "mat_add (residual s) (expand s) = T"
    by (simp_all add: sct_inv_def wf_expand)
  from wfR wfE eq show ?thesis by (rule mat_add_eq_sub)
qed

theorem sct_reconstruct_example:
  "residual ex_state1 = mat_sub ex_target (expand ex_state1) \<and>
   expand ex_state1 = mat_sub ex_target (residual ex_state1) \<and>
   expand ex_state1 = [[2, 2], [2, 2], [2, 2]]"
  using sct_reconstruct[OF ex_reach1] by (simp add: mat_sub_def)

text \<open>Sign validity: in every reachable state every cut's \<open>u\<close> has
  \<open>n\<close> entries and its \<open>v\<close> has \<open>m\<close> entries, each exactly \<open>+1\<close> or \<open>-1\<close>.\<close>

theorem sct_sign_valid:
  assumes "sct_reach draw cap T s"
  shows "\<forall>c\<in>set (cuts s). length (cut_u c) = nrows s \<and> length (cut_v c) = ncols s \<and>
           (\<forall>x\<in>set (cut_u c) \<union> set (cut_v c). x = 1 \<or> x = -1)"
  using sct_reach_inv[OF assms]
  by (auto simp: sct_inv_def cut_ok_def list_all_iff is_sign_vec_def is_sign_def)

theorem sct_sign_valid_example:
  "\<forall>c\<in>set (cuts ex_state1). length (cut_u c) = 3 \<and> length (cut_v c) = 2 \<and>
     (\<forall>x\<in>set (cut_u c) \<union> set (cut_v c). x = 1 \<or> x = -1)"
  using sct_sign_valid[OF ex_reach1] by simp

text \<open>The engine does not enforce its target count: a call of
  \<open>cut\<close> on a reachable engine that already holds \<open>target_count\<close> cuts still succeeds,
  and the cut set then exceeds the target count (spec invariant 2 is kept only by a
  caller that stops in time, as the program's loop does).\<close>

theorem sct_cut_over_budget:
  assumes "sct_reach draw cap T s" "target_count s \<le> length (cuts s)"
    and "sct_cut draw cap s g = (r, s', g')"
  shows "target_count s' < length (cuts s')"
  using assms sct_cut_step[OF sct_reach_inv[OF assms(1)]] by (metis prod.collapse length_append_singleton
      le_imp_less_Suc)

theorem sct_cut_over_budget_example:
  "target_count ex_state1 \<le> length (cuts ex_state1) \<and>
   target_count ex_state2 < length (cuts ex_state2)"
  using sct_cut_over_budget[OF ex_reach1 _ ex_step2] by simp

end
