(* ===== verification/Float.thy ===== *)
theory Float
  imports Prelude "HOL-Library.Log_Nat"
begin

text \<open>
  The floating-point arithmetic of \<open>src/src/main.rs\<close>: IEEE-754 binary formats
  (\<open>binary64\<close> for \<open>f64\<close>, \<open>binary32\<close> for \<open>f32\<close>) with rounding to nearest, ties
  to even, gradual underflow and overflow to an infinity.  A value is \<open>fval\<close>: a
  finite real (\<open>Fin\<close>), the two infinities or NaN; the sign of zero is not kept, as
  no operation of \<open>main\<close> can observe it.  \<open>rnd fmt x\<close> rounds a real to the format
  with an unbounded exponent range above (\<open>fp_exp\<close> is \<open>\<lfloor>log\<^sub>2 |x|\<rfloor>\<close> computed with
  \<open>bitlen\<close>, \<open>fp_ulp\<close> the spacing of the format there, \<open>round_even\<close> the tie rule) and
  \<open>fp_round\<close> adds the overflow.  On this: \<open>f64\<close> multiplication and division, the
  casts \<open>usize as f64\<close>, \<open>usize as f32\<close>, \<open>f64 as usize\<close> and the \<open>f32\<close> clamp, round
  and cast to \<open>u8\<close> used by \<open>to_u8\<close>.

  Lemmas: the rounding error is at most half a unit in the last place, hence at most
  \<open>2\<^sup>-\<^sup>p |x| + 2\<^sup>e\<^sup>m\<^sup>i\<^sup>n\<^sup>-\<^sup>p\<close>; integers below \<open>2\<^sup>p\<close> are exact; rounding is odd
  and monotone; the floor of a rounded quotient of small naturals is their integer
  quotient; three \<open>f64\<close> roundings of \<open>c X / Y\<close> stay within 1 of the exact
  quotient.  As a check of the rounding model against IEEE-754's definition,
  \<open>rnd\<close> returns a value of the format (\<open>is_float\<close>) closest to its argument and is
  idempotent.
\<close>

section \<open>IEEE-754 binary formats, rounding to nearest, ties to even\<close>

record fp_format =
  prec :: nat
  emin :: int
  emax :: int

definition binary64 :: fp_format where
  "binary64 = \<lparr>prec = 53, emin = - 1022, emax = 1023\<rparr>"

definition binary32 :: fp_format where
  "binary32 = \<lparr>prec = 24, emin = - 126, emax = 127\<rparr>"

definition fp_exp :: "real \<Rightarrow> int" where
  "fp_exp x = (if 1 \<le> x then bitlen \<lfloor>x\<rfloor> - 1 else - bitlen (\<lceil>1 / x\<rceil> - 1))"

definition round_even :: "real \<Rightarrow> int" where
  "round_even x =
     (let k = \<lfloor>x\<rfloor>; d = x - of_int k
      in if d < 1 / 2 then k else if 1 / 2 < d then k + 1 else if even k then k else k + 1)"

definition fp_ulp :: "fp_format \<Rightarrow> real \<Rightarrow> real" where
  "fp_ulp fmt x = 2 powi (max (fp_exp \<bar>x\<bar>) (emin fmt) - int (prec fmt) + 1)"

definition rnd :: "fp_format \<Rightarrow> real \<Rightarrow> real" where
  "rnd fmt x = (let u = fp_ulp fmt x in of_int (round_even (x / u)) * u)"

datatype fval = Fin real | PosInf | NegInf | NaN

definition fp_round :: "fp_format \<Rightarrow> real \<Rightarrow> fval" where
  "fp_round fmt x =
     (let y = rnd fmt x
      in if 2 powi (emax fmt + 1) \<le> \<bar>y\<bar> then (if 0 < x then PosInf else NegInf) else Fin y)"

text \<open>\<open>f64\<close> multiplication and division: IEEE special values, finite results rounded.\<close>

fun fmul :: "fval \<Rightarrow> fval \<Rightarrow> fval" where
  "fmul NaN y = NaN"
| "fmul x NaN = NaN"
| "fmul (Fin x) (Fin y) = fp_round binary64 (x * y)"
| "fmul (Fin x) PosInf = (if x = 0 then NaN else if 0 < x then PosInf else NegInf)"
| "fmul (Fin x) NegInf = (if x = 0 then NaN else if 0 < x then NegInf else PosInf)"
| "fmul PosInf (Fin y) = (if y = 0 then NaN else if 0 < y then PosInf else NegInf)"
| "fmul NegInf (Fin y) = (if y = 0 then NaN else if 0 < y then NegInf else PosInf)"
| "fmul PosInf PosInf = PosInf"
| "fmul PosInf NegInf = NegInf"
| "fmul NegInf PosInf = NegInf"
| "fmul NegInf NegInf = PosInf"

fun fdiv :: "fval \<Rightarrow> fval \<Rightarrow> fval" where
  "fdiv NaN y = NaN"
| "fdiv x NaN = NaN"
| "fdiv (Fin x) (Fin y) =
     (if y = 0 then (if x = 0 then NaN else if 0 < x then PosInf else NegInf)
      else fp_round binary64 (x / y))"
| "fdiv (Fin x) PosInf = Fin 0"
| "fdiv (Fin x) NegInf = Fin 0"
| "fdiv PosInf (Fin y) = (if 0 \<le> y then PosInf else NegInf)"
| "fdiv NegInf (Fin y) = (if 0 \<le> y then NegInf else PosInf)"
| "fdiv x y = NaN"

text \<open>\<open>n as f64\<close> and \<open>n as f32\<close> for a \<open>usize\<close>: rounded to nearest; below \<open>2\<^sup>6\<^sup>4\<close> neither
  format overflows, so the result is always finite.\<close>

definition f64_of_usize :: "usize \<Rightarrow> fval" where
  "f64_of_usize x = Fin (rnd binary64 (real (unat x)))"

definition f32_of_usize :: "usize \<Rightarrow> real" where
  "f32_of_usize x = rnd binary32 (real (unat x))"

text \<open>\<open>x as usize\<close>: truncation towards zero, saturating, NaN to 0.\<close>

definition usize_of_f64 :: "fval \<Rightarrow> usize" where
  "usize_of_f64 x =
     (case x of
        Fin r \<Rightarrow> if r < 0 then 0 else if 2 ^ 64 \<le> r then - 1 else of_nat (nat \<lfloor>r\<rfloor>)
      | PosInf \<Rightarrow> - 1
      | NegInf \<Rightarrow> 0
      | NaN \<Rightarrow> 0)"

text \<open>\<open>x.clamp(lo, hi)\<close>, \<open>x.round()\<close> (half away from zero) and \<open>x as u8\<close> on \<open>f32\<close>: the
  results of \<open>clamp\<close> and \<open>round\<close> are representable, so they are not rounded again.\<close>

definition f32_clamp :: "real \<Rightarrow> real \<Rightarrow> real \<Rightarrow> real" where
  "f32_clamp lo hi x = (if x < lo then lo else if hi < x then hi else x)"

definition f32_round :: "real \<Rightarrow> real" where
  "f32_round x = (if x < 0 then - of_int \<lfloor>- x + 1 / 2\<rfloor> else of_int \<lfloor>x + 1 / 2\<rfloor>)"

definition u8_of_f32 :: "real \<Rightarrow> u8" where
  "u8_of_f32 x = (if x < 0 then 0 else if 255 \<le> x then 255 else of_nat (nat \<lfloor>x\<rfloor>))"

text \<open>The values of a format (with the exponent range unbounded above): those that are an
  integer multiple of their own unit in the last place.\<close>

definition is_float :: "fp_format \<Rightarrow> real \<Rightarrow> bool" where
  "is_float fmt y \<longleftrightarrow> (let q = y / fp_ulp fmt y in of_int \<lfloor>q\<rfloor> = q)"

section \<open>Lemmas\<close>

declare of_nat_unat [simp del]

lemma pow2_pos [simp]: "0 < (2::real) powi k"
  by (simp add: power_int_def)

lemma pow2_less_iff [simp]: "(2::real) powi m < 2 powi n \<longleftrightarrow> m < n"
  by (meson not_less power_int_increasing power_int_strict_increasing one_le_numeral one_less_numeral_iff
      semiring_norm(76))

lemma pow2_le_iff [simp]: "(2::real) powi m \<le> 2 powi n \<longleftrightarrow> m \<le> n"
  by (meson not_less pow2_less_iff)

lemma fp_exp_bounds:
  assumes "0 < x"
  shows "2 powi fp_exp x \<le> x \<and> x < 2 powi (fp_exp x + 1)"
proof (cases "1 \<le> x")
  case True
  let ?f = "\<lfloor>x\<rfloor>"
  have f: "0 < ?f" using True by simp
  have b: "2 ^ nat (bitlen ?f - 1) \<le> ?f" "?f < 2 ^ nat (bitlen ?f)" using bitlen_bounds[OF f] by auto
  have L: "1 \<le> bitlen ?f" using f by (simp add: bitlen_alt_def)
  have e: "fp_exp x = bitlen ?f - 1" using True by (simp add: fp_exp_def)
  have "(2::real) powi fp_exp x = of_int (2 ^ nat (bitlen ?f - 1))"
    using L by (simp add: e power_int_def)
  also have "\<dots> \<le> of_int ?f" using b(1) by (simp only: of_int_le_iff)
  also have "\<dots> \<le> x" by simp
  finally have lo: "2 powi fp_exp x \<le> x" .
  have "x < of_int ?f + 1" by simp
  also have "\<dots> \<le> of_int (2 ^ nat (bitlen ?f))" using b(2) by (simp only: of_int_add[symmetric] of_int_le_iff)
  also have "\<dots> = 2 powi (fp_exp x + 1)" using L by (simp add: e power_int_def)
  finally show ?thesis using lo by simp
next
  case False
  let ?m = "\<lceil>1 / x\<rceil> - 1"
  have y: "1 < 1 / x" using False assms by simp
  then have m: "0 < ?m" by linarith
  have b: "2 ^ nat (bitlen ?m - 1) \<le> ?m" "?m < 2 ^ nat (bitlen ?m)" using bitlen_bounds[OF m] by auto
  have L: "1 \<le> bitlen ?m" using m by (simp add: bitlen_alt_def)
  have e: "fp_exp x = - bitlen ?m" using False by (simp add: fp_exp_def)
  have "1 / x \<le> of_int (?m + 1)" by simp
  also have "\<dots> \<le> of_int (2 ^ nat (bitlen ?m))" using b(2) by (simp only: of_int_le_iff)
  finally have "1 / x \<le> 2 ^ nat (bitlen ?m)" by simp
  then have lo: "1 / 2 ^ nat (bitlen ?m) \<le> x" using assms by (simp add: field_simps)
  have "of_int (2 ^ nat (bitlen ?m - 1)) \<le> (of_int ?m :: real)" using b(1) by (simp only: of_int_le_iff)
  also have "of_int ?m < 1 / x" by linarith
  finally have "2 ^ nat (bitlen ?m - 1) < 1 / x" by simp
  then have hi: "x < 1 / 2 ^ nat (bitlen ?m - 1)" using assms by (simp add: field_simps)
  have "(2::real) powi fp_exp x = 1 / 2 ^ nat (bitlen ?m)"
    using L by (simp add: e power_int_def power_one_over)
  moreover have "(2::real) powi (fp_exp x + 1) = 1 / 2 ^ nat (bitlen ?m - 1)"
    using L by (simp add: e power_int_def power_one_over nat_diff_distrib)
  ultimately show ?thesis using lo hi by simp
qed

lemma round_even_err: "\<bar>of_int (round_even x) - x\<bar> \<le> 1 / 2"
  using of_int_floor_le[of x] real_of_int_floor_add_one_gt[of x]
  unfolding round_even_def Let_def by (auto split: if_split simp: abs_le_iff)

lemma round_even_of_int [simp]: "round_even (of_int k) = k"
  by (simp add: round_even_def)

lemma round_even_nonneg: "0 \<le> x \<Longrightarrow> 0 \<le> round_even x"
  unfolding round_even_def Let_def by (simp split: if_splits)

lemma round_even_nonpos: "x \<le> 0 \<Longrightarrow> round_even x \<le> 0"
  using of_int_floor_le[of x] real_of_int_floor_add_one_gt[of x]
  unfolding round_even_def Let_def by (auto split: if_split)

lemma fp_ulp_pos: "0 < fp_ulp fmt x"
  by (simp add: fp_ulp_def)

lemma rnd_err: "\<bar>rnd fmt x - x\<bar> \<le> fp_ulp fmt x / 2"
proof -
  let ?u = "fp_ulp fmt x"
  have u: "0 < ?u" by (rule fp_ulp_pos)
  have "rnd fmt x - x = (of_int (round_even (x / ?u)) - x / ?u) * ?u"
    using u by (simp add: rnd_def Let_def algebra_simps)
  then have "\<bar>rnd fmt x - x\<bar> = \<bar>of_int (round_even (x / ?u)) - x / ?u\<bar> * ?u"
    using u by (simp add: abs_mult)
  also have "\<dots> \<le> 1 / 2 * ?u" using u by (intro mult_right_mono round_even_err) simp
  finally show ?thesis by simp
qed

lemma round_even_zero [simp]: "round_even 0 = 0"
  using round_even_of_int[of 0] by simp

lemma rnd_zero [simp]: "rnd fmt 0 = 0"
  by (simp add: rnd_def)

lemma fp_ulp_half: "fp_ulp fmt x / 2 = 2 powi (max (fp_exp \<bar>x\<bar>) (emin fmt) - int (prec fmt))"
  by (simp add: fp_ulp_def power_int_add_1)

lemma fp_exp_ge_emin:
  assumes "2 powi emin fmt \<le> \<bar>x\<bar>" shows "emin fmt \<le> fp_exp \<bar>x\<bar>"
proof -
  have x: "0 < \<bar>x\<bar>" using assms by (smt (verit) pow2_pos)
  have "(2::real) powi emin fmt < 2 powi (fp_exp \<bar>x\<bar> + 1)"
    using assms fp_exp_bounds[OF x] by linarith
  then have "emin fmt < fp_exp \<bar>x\<bar> + 1" by simp
  then show ?thesis by simp
qed

lemma fp_ulp_normal:
  assumes "2 powi emin fmt \<le> \<bar>x\<bar>"
  shows "fp_ulp fmt x / 2 \<le> 2 powi (- int (prec fmt)) * \<bar>x\<bar>"
proof -
  let ?e = "fp_exp \<bar>x\<bar>"
  have x: "0 < \<bar>x\<bar>" using assms by (smt (verit) pow2_pos)
  have "fp_ulp fmt x / 2 = 2 powi ?e * 2 powi (- int (prec fmt))"
    using fp_exp_ge_emin[OF assms] by (simp add: fp_ulp_half power_int_add[symmetric])
  also have "\<dots> \<le> \<bar>x\<bar> * 2 powi (- int (prec fmt))"
    using fp_exp_bounds[OF x] by (intro mult_right_mono) simp_all
  finally show ?thesis by (simp add: mult.commute)
qed

lemma fp_ulp_subnormal:
  assumes "x \<noteq> 0" "\<bar>x\<bar> < 2 powi emin fmt"
  shows "fp_ulp fmt x / 2 = 2 powi (emin fmt - int (prec fmt))"
proof -
  have x: "0 < \<bar>x\<bar>" using assms(1) by simp
  have "(2::real) powi fp_exp \<bar>x\<bar> < 2 powi emin fmt" using assms(2) fp_exp_bounds[OF x] by linarith
  then have "fp_exp \<bar>x\<bar> < emin fmt" by simp
  then show ?thesis by (simp add: fp_ulp_half)
qed

lemma rnd_err_bound:
  "\<bar>rnd fmt x - x\<bar> \<le> 2 powi (- int (prec fmt)) * \<bar>x\<bar> + 2 powi (emin fmt - int (prec fmt))"
proof (cases "2 powi emin fmt \<le> \<bar>x\<bar>")
  case True
  then show ?thesis using rnd_err[of fmt x] fp_ulp_normal[OF True] by (smt (verit) pow2_pos)
next
  case False
  show ?thesis
  proof (cases "x = 0")
    case False
    with \<open>\<not> 2 powi emin fmt \<le> \<bar>x\<bar>\<close> show ?thesis
      using rnd_err[of fmt x] fp_ulp_subnormal[of x fmt]
      by (smt (verit) pow2_pos mult_nonneg_nonneg abs_ge_zero)
  qed (simp add: less_imp_le)
qed

lemma rnd_err_normal:
  "2 powi emin fmt \<le> \<bar>x\<bar> \<Longrightarrow> \<bar>rnd fmt x - x\<bar> \<le> 2 powi (- int (prec fmt)) * \<bar>x\<bar>"
  using rnd_err[of fmt x] fp_ulp_normal[of fmt x] by linarith

lemma rnd_nonneg: "0 \<le> x \<Longrightarrow> 0 \<le> rnd fmt x"
  using fp_ulp_pos[of fmt x] round_even_nonneg[of "x / fp_ulp fmt x"]
  by (simp add: rnd_def Let_def)

lemma rnd_nonpos: "x \<le> 0 \<Longrightarrow> rnd fmt x \<le> 0"
  using fp_ulp_pos[of fmt x] round_even_nonpos[of "x / fp_ulp fmt x"]
  by (simp add: rnd_def Let_def mult_nonpos_nonneg divide_nonpos_pos)

lemma rnd_of_int:
  assumes "0 < prec fmt" "emin fmt \<le> 0" "\<bar>k\<bar> < 2 ^ prec fmt"
  shows "rnd fmt (of_int k) = of_int k"
proof (cases "k = 0")
  case False
  let ?e = "fp_exp \<bar>of_int k\<bar>" and ?p = "int (prec fmt)"
  have x: "0 < \<bar>of_int k :: real\<bar>" using False by simp
  have "(2::real) powi ?e \<le> \<bar>of_int k\<bar>" using fp_exp_bounds[OF x] by simp
  also have "\<dots> < 2 powi ?p"
    using assms(3) by (simp add: power_int_of_nat) (metis of_int_abs of_int_less_iff of_int_numeral of_int_power)
  finally have "?e < ?p" by (simp only: pow2_less_iff)
  then have le: "max ?e (emin fmt) \<le> ?p - 1" using assms(1,2) by simp
  define j where "j = nat (?p - 1 - max ?e (emin fmt))"
  have j: "max ?e (emin fmt) - ?p + 1 = - int j" using le by (simp add: j_def)
  have u: "fp_ulp fmt (of_int k) = 1 / 2 ^ j"
    by (simp add: fp_ulp_def j power_int_minus_divide power_int_of_nat)
  have "of_int k / fp_ulp fmt (of_int k) = (of_int (k * 2 ^ j) :: real)" by (simp add: u)
  then have "round_even (of_int k / fp_ulp fmt (of_int k)) = k * 2 ^ j" by (simp only: round_even_of_int)
  then show ?thesis by (simp add: rnd_def Let_def u)
qed simp

lemma round_even_mono: "x \<le> y \<Longrightarrow> round_even x \<le> round_even y"
proof -
  assume xy: "x \<le> y"
  have fx: "of_int \<lfloor>x\<rfloor> \<le> x" "x < of_int \<lfloor>x\<rfloor> + 1" and fy: "of_int \<lfloor>y\<rfloor> \<le> y" "y < of_int \<lfloor>y\<rfloor> + 1"
    by linarith+
  have "\<lfloor>x\<rfloor> \<le> \<lfloor>y\<rfloor>" using xy by (rule floor_mono)
  then consider "\<lfloor>x\<rfloor> = \<lfloor>y\<rfloor>" | "\<lfloor>x\<rfloor> + 1 \<le> \<lfloor>y\<rfloor>" by linarith
  then show ?thesis
  proof cases
    case 1
    then show ?thesis using xy unfolding round_even_def Let_def by (auto split: if_split)
  next
    case 2
    have "round_even x \<le> \<lfloor>x\<rfloor> + 1" "\<lfloor>y\<rfloor> \<le> round_even y"
      unfolding round_even_def Let_def by (auto split: if_split)
    then show ?thesis using 2 by linarith
  qed
qed

lemma round_even_grid:
  assumes "0 < u"
  shows "x \<le> of_int m * u \<Longrightarrow> of_int (round_even (x / u)) * u \<le> of_int m * u"
    and "of_int m * u \<le> x \<Longrightarrow> of_int m * u \<le> of_int (round_even (x / u)) * u"
proof -
  assume "x \<le> of_int m * u"
  then have "x / u \<le> of_int m" using assms by (simp add: divide_le_eq)
  then have "round_even (x / u) \<le> m" using round_even_mono[of "x / u" "of_int m"] by simp
  then show "of_int (round_even (x / u)) * u \<le> of_int m * u" using assms by simp
next
  assume "of_int m * u \<le> x"
  then have "of_int m \<le> x / u" using assms by (simp add: le_divide_eq)
  then have "m \<le> round_even (x / u)" using round_even_mono[of "of_int m" "x / u"] by simp
  then show "of_int m * u \<le> of_int (round_even (x / u)) * u" using assms by simp
qed

lemma pow2_grid: "k \<le> n \<Longrightarrow> (2::real) powi n = of_int (2 ^ nat (n - k)) * 2 powi k"
  by (simp add: power_int_add[symmetric] power_int_of_nat[symmetric])

lemma fp_exp_mono:
  assumes "0 < x" "x \<le> y" shows "fp_exp x \<le> fp_exp y"
proof -
  have "(2::real) powi fp_exp x < 2 powi (fp_exp y + 1)"
    using fp_exp_bounds[OF assms(1)] fp_exp_bounds[of y] assms by linarith
  then show ?thesis by simp
qed

lemma rnd_mono_pos:
  assumes "0 < prec fmt" "0 < x" "x \<le> y"
  shows "rnd fmt x \<le> rnd fmt y"
proof -
  let ?a = "max (fp_exp x) (emin fmt)" and ?b = "max (fp_exp y) (emin fmt)" and ?p = "int (prec fmt)"
  have y: "0 < y" using assms by simp
  have ux: "fp_ulp fmt x = 2 powi (?a - ?p + 1)" and uy: "fp_ulp fmt y = 2 powi (?b - ?p + 1)"
    using assms(2) y by (simp_all add: fp_ulp_def)
  have ab: "?a \<le> ?b" using fp_exp_mono[OF assms(2,3)] by simp
  show ?thesis
  proof (cases "?a = ?b")
    case True
    then have u: "fp_ulp fmt x = fp_ulp fmt y" using ux uy by simp
    have "x / fp_ulp fmt y \<le> y / fp_ulp fmt y" using assms(3) fp_ulp_pos[of fmt y] by (simp add: divide_right_mono)
    then show ?thesis using fp_ulp_pos[of fmt y] by (simp add: rnd_def Let_def u round_even_mono)
  next
    case False
    then have b: "?b = fp_exp y" "fp_exp x + 1 \<le> ?b" using ab by auto
    let ?B = "(2::real) powi fp_exp y"
    have "x < 2 powi (fp_exp x + 1)" using fp_exp_bounds[OF assms(2)] by simp
    also have "\<dots> \<le> ?B" using b by simp
    finally have xB: "x \<le> ?B" by simp
    have By: "?B \<le> y" using fp_exp_bounds[OF y] by simp
    have "rnd fmt x \<le> ?B"
      using round_even_grid(1)[OF fp_ulp_pos, of x "2 ^ nat (fp_exp y - (?a - ?p + 1))" fmt x] xB
        pow2_grid[of "?a - ?p + 1" "fp_exp y"] b assms(1) ux
      by (simp add: rnd_def Let_def)
    also have "?B \<le> rnd fmt y"
      using round_even_grid(2)[OF fp_ulp_pos, of "2 ^ nat (fp_exp y - (?b - ?p + 1))" fmt y y] By
        pow2_grid[of "?b - ?p + 1" "fp_exp y"] b assms(1) uy
      by (simp add: rnd_def Let_def)
    finally show ?thesis .
  qed
qed

lemma round_even_uminus: "round_even (- x) = - round_even x"
proof (cases "x = of_int \<lfloor>x\<rfloor>")
  case True
  then show ?thesis by (metis round_even_of_int of_int_minus)
next
  case False
  then have f: "\<lfloor>- x\<rfloor> = - \<lfloor>x\<rfloor> - 1" by (simp add: floor_minus ceiling_altdef)
  have lt: "of_int \<lfloor>x\<rfloor> < x" "x < of_int \<lfloor>x\<rfloor> + 1" using False of_int_floor_le[of x] by linarith+
  show ?thesis
    unfolding round_even_def Let_def f using lt by (auto split: if_split)
qed

lemma fp_ulp_uminus [simp]: "fp_ulp fmt (- x) = fp_ulp fmt x"
  by (simp add: fp_ulp_def)

lemma rnd_uminus: "rnd fmt (- x) = - rnd fmt x"
  by (simp add: rnd_def Let_def round_even_uminus)

lemma rnd_mono:
  assumes "0 < prec fmt" "x \<le> y" shows "rnd fmt x \<le> rnd fmt y"
proof -
  consider "0 < x" | "y < 0" | "x \<le> 0" "0 \<le> y" by linarith
  then show ?thesis
  proof cases
    case 1
    show ?thesis using rnd_mono_pos[OF assms(1) 1 assms(2)] .
  next
    case 2
    then have "rnd fmt (- y) \<le> rnd fmt (- x)" using assms by (intro rnd_mono_pos) simp_all
    then show ?thesis by (simp add: rnd_uminus)
  next
    case 3
    then show ?thesis using rnd_nonpos[of x fmt] rnd_nonneg[of y fmt] by simp
  qed
qed

lemma binary64_simps [simp]: "prec binary64 = 53" "emin binary64 = - 1022" "emax binary64 = 1023"
  by (simp_all add: binary64_def)

lemma binary32_simps [simp]: "prec binary32 = 24" "emin binary32 = - 126" "emax binary32 = 127"
  by (simp_all add: binary32_def)

lemma rnd_abs_le:
  assumes "0 < prec fmt"
  shows "\<bar>rnd fmt x\<bar> \<le> \<bar>x\<bar> * (1 + 2 powi (- int (prec fmt))) + 2 powi (emin fmt - int (prec fmt))"
  using rnd_err_bound[of fmt x] by (simp add: algebra_simps)

lemma fp_round_Fin:
  assumes "0 < prec fmt" "emin fmt \<le> emax fmt" "\<bar>x\<bar> < 2 powi emax fmt"
  shows "fp_round fmt x = Fin (rnd fmt x)"
proof -
  let ?p = "int (prec fmt)" and ?E = "(2::real) powi emax fmt"
  have p: "(2::real) powi (- ?p) \<le> 1 / 2"
    using pow2_le_iff[of "- ?p" "- 1"] assms(1) by (simp add: power_int_minus_divide)
  have m: "(2::real) powi (emin fmt - ?p) \<le> ?E / 2"
    using pow2_le_iff[of "emin fmt - ?p" "emax fmt - 1"] assms(1,2)
    by (simp add: power_int_diff)
  have "\<bar>x\<bar> * (1 + 2 powi (- ?p)) \<le> \<bar>x\<bar> * (3 / 2)" using p by (intro mult_left_mono) simp_all
  also have "\<dots> < ?E * (3 / 2)" using assms(3) by simp
  finally have "\<bar>rnd fmt x\<bar> < 2 * ?E" using rnd_abs_le[OF assms(1), of x] m by linarith
  then show ?thesis by (simp add: fp_round_def Let_def power_int_add_1')
qed

lemma rnd64_of_nat: "n < 2 ^ 53 \<Longrightarrow> rnd binary64 (real n) = real n"
  using rnd_of_int[of binary64 "int n"] by simp

lemma rnd32_of_nat: "n < 2 ^ 24 \<Longrightarrow> rnd binary32 (real n) = real n"
  using rnd_of_int[of binary32 "int n"] by simp

lemma f64_of_usize_exact: "unat x < 2 ^ 53 \<Longrightarrow> f64_of_usize x = Fin (real (unat x))"
  by (simp add: f64_of_usize_def rnd64_of_nat)

lemma floor_rnd_div:
  assumes "0 < prec fmt" "emin fmt \<le> 0" "0 < b" "a < 2 ^ prec fmt" "real b < 2 powi (- emin fmt)"
  shows "\<lfloor>rnd fmt (real a / real b)\<rfloor> = int (a div b)"
proof -
  let ?q = "real a / real b" and ?k = "a div b" and ?p = "int (prec fmt)"
  have kq: "real ?k \<le> ?q" by (rule of_nat_div_le_of_nat)
  have qk: "?q < real ?k + 1"
    using assms(3) by (simp add: divide_less_eq) (metis add.commute mod_less_divisor
      of_nat_add of_nat_less_iff of_nat_mult div_mult_mod_eq add_less_cancel_left mult.commute distrib_left mult.right_neutral)
  have "?k \<le> a" by simp
  then have "?k < 2 ^ prec fmt" using assms(4) by (rule le_less_trans)
  then have kp: "\<bar>int ?k\<bar> < 2 ^ prec fmt" by (metis abs_of_nat of_nat_less_iff of_nat_numeral of_nat_power)
  have lo: "real ?k \<le> rnd fmt ?q"
    using rnd_mono[OF assms(1) kq] rnd_of_int[OF assms(1,2) kp] by simp
  \<comment> \<open>the rounding error is below the distance \<open>1 / b\<close> from \<open>q\<close> to the next integer\<close>
  have "real a * real b + real b * real b * 2 powi (emin fmt) < real b * 2 ^ prec fmt"
  proof -
    have "real b * 2 powi (emin fmt) < 1"
      using assms(5) by (simp add: power_int_minus_divide less_divide_eq mult.commute)
    then have "real b * real b * 2 powi (emin fmt) < real b" using assms(3) by simp
    moreover have "real a * real b \<le> (2 ^ prec fmt - 1) * real b"
      using assms(3,4) by (intro mult_right_mono) (simp_all add: of_nat_less_iff[symmetric] nat_less_real_le)
    ultimately show ?thesis by (simp add: algebra_simps)
  qed
  then have err: "2 powi (- ?p) * ?q + 2 powi (emin fmt - ?p) < 1 / real b"
    using assms(3) by (simp add: power_int_diff power_int_minus_divide field_simps)
  have "rnd fmt ?q < ?q + 1 / real b"
    using rnd_err_bound[of fmt ?q] err by simp
  also have "\<dots> \<le> real ?k + 1"
  proof -
    have "real a < (real ?k + 1) * real b" using qk assms(3) by (simp add: divide_less_eq)
    then have "real a + 1 \<le> (real ?k + 1) * real b"
      by (metis of_nat_1 of_nat_add of_nat_mult of_nat_less_iff Suc_le_eq of_nat_le_iff add.commute plus_1_eq_Suc)
    then show ?thesis using assms(3) by (simp add: field_simps)
  qed
  finally show ?thesis using lo by linarith
qed

lemma usize_of_f64_Fin_nonneg:
  "0 \<le> q \<Longrightarrow> unat (usize_of_f64 (Fin q)) = min (2 ^ 64 - 1) (nat \<lfloor>q\<rfloor>)"
proof (cases "2 ^ 64 \<le> q")
  case True
  assume "0 \<le> q"
  have "(2::int) ^ 64 \<le> \<lfloor>q\<rfloor>" using True by (simp add: le_floor_iff)
  then have "2 ^ 64 \<le> nat \<lfloor>q\<rfloor>" by (simp add: le_nat_iff)
  with True show ?thesis by (simp add: usize_of_f64_def unsigned_minus_1_eq_mask mask_eq_exp_minus_1)
next
  case False
  assume "0 \<le> q"
  have fl: "\<lfloor>q\<rfloor> < (2::int) ^ 64" using False by (simp add: floor_less_iff)
  have "0 \<le> \<lfloor>q\<rfloor>" using \<open>0 \<le> q\<close> by simp
  with fl have "nat \<lfloor>q\<rfloor> < 2 ^ 64" by (simp add: nat_less_iff del: floor_less_iff)
  then have u: "unat (word_of_nat (nat \<lfloor>q\<rfloor>) :: usize) = nat \<lfloor>q\<rfloor>"
    by (simp only: unat_of_nat len_of_numeral_defs) simp
  have "usize_of_f64 (Fin q) = word_of_nat (nat \<lfloor>q\<rfloor>)"
    using False \<open>0 \<le> q\<close> by (simp add: usize_of_f64_def)
  with u \<open>nat \<lfloor>q\<rfloor> < 2 ^ 64\<close> show ?thesis by simp
qed

lemma f32_clamp_range: "0 \<le> f32_clamp 0 255 r \<and> f32_clamp 0 255 r \<le> 255"
  by (simp add: f32_clamp_def)

lemma u8_of_f32_of_int: "0 \<le> k \<Longrightarrow> k \<le> 255 \<Longrightarrow> u8_of_f32 (of_int k) = of_nat (nat k)"
proof (cases "k = 255")
  case False
  assume "0 \<le> k" "k \<le> 255"
  with False have "\<not> (255::real) \<le> of_int k" "\<not> of_int k < (0::real)" by linarith+
  then show ?thesis by (simp add: u8_of_f32_def)
qed (simp add: u8_of_f32_def)

lemma usize_of_f64_nonpos: "q \<le> 0 \<Longrightarrow> usize_of_f64 (Fin q) = 0"
  by (cases "q = 0") (auto simp: usize_of_f64_def)

lemma fp_round_zero [simp]: "fp_round fmt 0 = Fin 0"
  using pow2_pos[of "emax fmt + 1"] by (simp add: fp_round_def not_le)

lemma fp_round_nonpos:
  "x \<le> 0 \<Longrightarrow> fp_round fmt x = NegInf \<or> (\<exists>r \<le> 0. fp_round fmt x = Fin r)"
  using rnd_nonpos[of x fmt] by (auto simp: fp_round_def Let_def)

lemma usize_of_f64_fp_round_nonpos: "x \<le> 0 \<Longrightarrow> usize_of_f64 (fp_round fmt x) = 0"
  using fp_round_nonpos[of x fmt] by (auto simp: usize_of_f64_def usize_of_f64_nonpos)

lemma rnd_ge_one:
  assumes "0 < prec fmt" "emin fmt \<le> 0" "1 \<le> x" shows "1 \<le> rnd fmt x"
proof -
  have "\<bar>1 :: int\<bar> < 2 ^ prec fmt" using assms(1) by simp
  then have "rnd fmt 1 = 1" using rnd_of_int[OF assms(1,2), of 1] by simp
  then show ?thesis using rnd_mono[OF assms(1,3)] by simp
qed

text \<open>Three roundings of \<open>c \<cdot> X / Y\<close> in \<open>binary64\<close> (\<open>X\<close> converted, the product, the
  quotient) move a quotient of at most \<open>2\<^sup>5\<^sup>0\<close> by less than one.\<close>

lemma fmul_fdiv_err:
  assumes "0 \<le> c" "1 \<le> X" "1 \<le> Y" "Y \<le> 2 ^ 64" "c * X / Y \<le> 2 ^ 50"
  shows "\<exists>Q. fdiv (fmul (Fin c) (Fin (rnd binary64 X))) (Fin Y) = Fin Q \<and> 0 \<le> Q \<and>
             \<bar>Q - c * X / Y\<bar> < 1"
proof -
  define d :: real where "d = 1 / 2 ^ 53"
  define e :: real where "e = 1 / 2 ^ 1075"
  define t where "t = c * X / Y"
  have err: "\<bar>rnd binary64 z - z\<bar> \<le> d * \<bar>z\<bar> + e" for z
    using rnd_err_bound[of binary64 z] by (simp add: d_def e_def power_int_minus_divide)
  have d: "0 < d" "d \<le> 1 / 8" and e: "0 < e" "e \<le> 1 / 32" by (simp_all add: d_def e_def)
  have "d * t \<le> d * 2 ^ 50" using assms(5) d by (intro mult_left_mono) (simp_all add: t_def)
  then have q: "0 \<le> t" "d * t \<le> 1 / 8" using assms(1-3) by (simp_all add: d_def t_def)
  have Y: "0 < Y" using assms(3) by simp
  let ?X = "rnd binary64 X"
  have "\<bar>?X - X\<bar> \<le> d * X"
    using rnd_err_normal[of binary64 X] assms(2) by (simp add: d_def power_int_minus_divide)
  then have cd: "\<bar>c * ?X - c * X\<bar> \<le> c * (d * X)"
    using assms(1) by (metis abs_mult abs_of_nonneg mult_left_mono right_diff_distrib)
  have cX: "t * Y = c * X" using Y by (simp add: t_def)
  have A: "\<bar>c * ?X - t * Y\<bar> \<le> d * t * Y"
    unfolding mult.assoc[of d] cX using cd by (simp add: algebra_simps)
  have A0: "0 \<le> c * ?X" using assms(1,2) rnd_nonneg[of X binary64] by simp
  have qY0: "0 \<le> t * Y" unfolding cX using assms(1,2) by simp
  then have qY: "d * t * Y \<le> t * Y" using d by (simp only: mult.assoc) (rule mult_left_le_one_le; simp)
  have A2: "c * ?X \<le> 2 * (t * Y)" using A qY by linarith
  let ?P = "rnd binary64 (c * ?X)"
  have P: "\<bar>?P - c * ?X\<bar> \<le> d * (c * ?X) + e" using err[of "c * ?X"] A0 by simp
  have P0: "0 \<le> ?P" using rnd_nonneg[OF A0] .
  have qY2: "t * Y \<le> 2 ^ 50 * 2 ^ 64" using assms(4,5) q(1) Y by (intro mult_mono) (simp_all add: t_def)
  have "\<bar>c * ?X\<bar> < 2 powi 1023" using A0 A2 qY2 by simp
  then have fm: "fmul (Fin c) (Fin ?X) = Fin ?P" by (simp add: fp_round_Fin)
  define a where "a = c * ?X / Y"
  define B where "B = ?P / Y"
  define Q where "Q = rnd binary64 B"
  have dq: "d * t \<le> 1 / 8 * t" using d q(1) by (intro mult_right_mono) simp_all
  have F1: "\<bar>a - t\<bar> \<le> d * t"
    using A Y by (simp add: a_def t_def diff_divide_distrib[symmetric] abs_divide divide_le_eq)
  have a2: "a \<le> 2 * t" using F1 dq q(1) by linarith
  have a0: "0 \<le> a" using A0 Y by (simp add: a_def)
  have F2: "\<bar>B - a\<bar> \<le> d * a + e"
  proof -
    have "\<bar>B - a\<bar> = \<bar>?P - c * ?X\<bar> / Y"
      using Y by (simp add: a_def B_def diff_divide_distrib[symmetric] abs_divide)
    also have "\<dots> \<le> (d * (c * ?X) + e) / Y" using P Y by (simp add: divide_right_mono)
    also have "\<dots> = d * a + e / Y" using Y by (simp add: a_def add_divide_distrib)
    also have "e / Y \<le> e" using e assms(3) by (simp add: divide_le_eq mult_le_cancel_left1)
    finally show ?thesis by simp
  qed
  have da: "d * a \<le> 2 * (d * t)" using a2 d by (simp add: mult_left_mono)
  have B0: "0 \<le> B" using P0 Y by (simp add: B_def)
  have B3: "B \<le> 3 * t + e" using F2 da dq a2 q(1) by linarith
  have db: "d * B \<le> 3 * (d * t) + e"
  proof -
    have "d * B \<le> d * (3 * t + e)" using B3 d by (simp add: mult_left_mono)
    moreover have "d * e \<le> e" using d e by (simp add: mult_left_le_one_le)
    ultimately show ?thesis by (simp add: algebra_simps)
  qed
  have "\<bar>B\<bar> < 2 powi 1023" using B0 B3 q assms(5) e by (simp add: t_def)
  then have fd: "fdiv (Fin ?P) (Fin Y) = Fin Q" using Y by (simp add: fp_round_Fin B_def Q_def)
  have F3: "\<bar>Q - B\<bar> \<le> d * B + e" using err[of B] B0 by (simp add: Q_def)
  have "\<bar>Q - t\<bar> < 1" using F1 F2 F3 da db q(2) e by linarith
  moreover have "0 \<le> Q" using rnd_nonneg[OF B0] by (simp add: Q_def)
  ultimately show ?thesis using fm fd by (auto simp: t_def)
qed

lemma usize_of_f64_fdiv_nonpos:
  assumes "v = NaN \<or> v = NegInf \<or> (\<exists>r \<le> 0. v = Fin r)" "0 \<le> y"
  shows "usize_of_f64 (fdiv v (Fin y)) = 0"
proof -
  have "usize_of_f64 (fdiv (Fin r) (Fin y)) = 0" if "r \<le> 0" for r
  proof (cases "y = 0")
    case False
    then show ?thesis using that assms(2) by (simp add: usize_of_f64_fp_round_nonpos divide_nonpos_nonneg)
  qed (use that in \<open>simp add: usize_of_f64_def\<close>)
  then show ?thesis using assms by (auto simp: usize_of_f64_def)
qed

lemma fmul_nonpos:
  assumes "rate = NaN \<or> rate = NegInf \<or> (\<exists>c \<le> 0. rate = Fin c)" "0 \<le> x"
  shows "fmul rate (Fin x) = NaN \<or> fmul rate (Fin x) = NegInf \<or> (\<exists>r \<le> 0. fmul rate (Fin x) = Fin r)"
proof -
  have F: "fp_round binary64 (c * x) = NegInf \<or> (\<exists>r \<le> 0. fp_round binary64 (c * x) = Fin r)" if "c \<le> 0" for c
    using that assms(2) by (intro fp_round_nonpos) (simp add: mult_nonpos_nonneg)
  show ?thesis using assms(1)
  proof (elim disjE exE conjE)
    fix c assume "c \<le> 0" "rate = Fin c"
    then show ?thesis using F[of c] by simp
  qed (use assms(2) in auto)
qed

text \<open>The rounding is the one IEEE-754 specifies: its result is a value of the format,
  no value of the format is closer, and values of the format are left unchanged.\<close>

lemma round_even_nearest: "\<bar>of_int (round_even z) - z\<bar> \<le> \<bar>of_int k - z\<bar>"
proof (cases "k = round_even z")
  case False
  then have "1 \<le> \<bar>of_int k - of_int (round_even z) :: real\<bar>"
    by (metis of_int_1_le_iff of_int_abs of_int_diff right_minus_eq zero_less_abs_iff zless_imp_add1_zle
        add.left_neutral)
  then show ?thesis using round_even_err[of z] by linarith
qed simp

lemma rnd_nearest_grid: "\<bar>rnd fmt x - x\<bar> \<le> \<bar>of_int k * fp_ulp fmt x - x\<bar>"
proof -
  let ?u = "fp_ulp fmt x"
  have u: "0 < ?u" by (rule fp_ulp_pos)
  have sc: "\<bar>of_int j * ?u - x\<bar> = \<bar>of_int j - x / ?u\<bar> * ?u" for j
  proof -
    have "of_int j * ?u - x = (of_int j - x / ?u) * ?u" using u by (simp add: field_simps)
    then show ?thesis using u by (simp add: abs_mult)
  qed
  have "\<bar>rnd fmt x - x\<bar> = \<bar>of_int (round_even (x / ?u)) - x / ?u\<bar> * ?u"
    using sc by (simp add: rnd_def Let_def)
  also have "\<dots> \<le> \<bar>of_int k - x / ?u\<bar> * ?u" using u round_even_nearest by (intro mult_right_mono) simp_all
  also have "\<dots> = \<bar>of_int k * ?u - x\<bar>" using sc by simp
  finally show ?thesis .
qed

lemma is_float_multiple:
  assumes "is_float fmt y" "fp_ulp fmt x \<le> fp_ulp fmt y"
  shows "\<exists>k. y = of_int k * fp_ulp fmt x"
proof -
  let ?a = "max (fp_exp \<bar>x\<bar>) (emin fmt) - int (prec fmt) + 1"
  let ?b = "max (fp_exp \<bar>y\<bar>) (emin fmt) - int (prec fmt) + 1"
  have ab: "?a \<le> ?b" using assms(2) by (simp add: fp_ulp_def)
  obtain m where m: "y = of_int m * fp_ulp fmt y"
    using assms(1) fp_ulp_pos[of fmt y] unfolding is_float_def Let_def
    by (metis nonzero_eq_divide_eq order_less_irrefl)
  have "y = of_int (m * 2 ^ nat (?b - ?a)) * fp_ulp fmt x"
    using m pow2_grid[OF ab] by (simp add: fp_ulp_def)
  then show ?thesis by blast
qed

lemma grid_is_float:
  assumes "y = of_int k * u" "u = 2 powi a" "fp_ulp fmt y \<le> u"
  shows "is_float fmt y"
proof -
  define b where "b = max (fp_exp \<bar>y\<bar>) (emin fmt) - int (prec fmt) + 1"
  define U where "U = fp_ulp fmt y"
  define n where "n = nat (a - b)"
  have Ub: "U = 2 powi b" by (simp add: U_def b_def fp_ulp_def)
  have ba: "b \<le> a" using assms(2,3) by (simp add: U_def[symmetric] Ub)
  have g: "u = of_int (2 ^ n) * U" using assms(2) pow2_grid[OF ba] by (simp add: Ub n_def)
  have U0: "0 < U" by (simp add: Ub)
  have "y / U = of_int (k * 2 ^ n)" using assms(1) g U0 by simp
  then show ?thesis unfolding is_float_def Let_def U_def[symmetric] by (metis floor_of_int)
qed

lemma float_rnd: "is_float fmt y \<Longrightarrow> rnd fmt y = y"
proof -
  assume "is_float fmt y"
  then obtain k where k: "y / fp_ulp fmt y = of_int k"
    unfolding is_float_def Let_def by metis
  then have "round_even (y / fp_ulp fmt y) = k" by simp
  then have "rnd fmt y = of_int k * fp_ulp fmt y" by (simp add: rnd_def Let_def)
  also have "\<dots> = y" using k fp_ulp_pos[of fmt y] by (simp add: field_simps)
  finally show ?thesis .
qed

lemma rnd_nearest:
  assumes "0 < prec fmt" "is_float fmt y"
  shows "\<bar>rnd fmt x - x\<bar> \<le> \<bar>y - x\<bar>"
proof (cases "fp_ulp fmt x \<le> fp_ulp fmt y")
  case True
  then obtain k where "y = of_int k * fp_ulp fmt x" using is_float_multiple[OF assms(2)] by blast
  then show ?thesis using rnd_nearest_grid[of fmt x k] by simp
next
  case False
  show ?thesis
  proof (cases "x = 0")
    case False
    let ?ex = "fp_exp \<bar>x\<bar>" and ?ey = "fp_exp \<bar>y\<bar>" and ?p = "int (prec fmt)"
    have lt: "max ?ey (emin fmt) < max ?ex (emin fmt)"
      using \<open>\<not> fp_ulp fmt x \<le> fp_ulp fmt y\<close> by (simp add: fp_ulp_def max_def split: if_splits)
    then have ex: "max ?ex (emin fmt) = ?ex" "?ey < ?ex" by (simp_all add: max_def split: if_splits)
    have x: "0 < \<bar>x\<bar>" using False by simp
    have xB: "2 powi ?ex \<le> \<bar>x\<bar>" using fp_exp_bounds[OF x] by simp
    have yB: "\<bar>y\<bar> \<le> 2 powi ?ex"
    proof (cases "y = 0")
      case False
      then have "\<bar>y\<bar> < 2 powi (?ey + 1)" using fp_exp_bounds[of "\<bar>y\<bar>"] by simp
      also have "\<dots> \<le> 2 powi ?ex" using ex(2) by simp
      finally show ?thesis by simp
    qed simp
    define m :: int where "m = 2 ^ nat (?ex - (?ex - ?p + 1))"
    have u: "fp_ulp fmt x = 2 powi (?ex - ?p + 1)" by (simp add: fp_ulp_def ex(1))
    have B: "(2::real) powi ?ex = of_int m * fp_ulp fmt x"
      using pow2_grid[of "?ex - ?p + 1" ?ex] assms(1) by (simp add: u m_def)
    define k where "k = (if 0 < x then m else - m)"
    have "\<bar>of_int k * fp_ulp fmt x - x\<bar> = \<bar>x\<bar> - 2 powi ?ex"
      using xB B by (auto simp: k_def abs_if)
    also have "\<dots> \<le> \<bar>y - x\<bar>" using yB by linarith
    finally show ?thesis using rnd_nearest_grid[of fmt x k] by linarith
  qed simp
qed

lemma is_float_uminus [simp]: "is_float fmt (- y) \<longleftrightarrow> is_float fmt y"
proof -
  have "of_int \<lfloor>- q\<rfloor> = - q \<longleftrightarrow> of_int \<lfloor>q\<rfloor> = (q :: real)" for q
    by (metis floor_minus floor_of_int minus_minus of_int_minus ceiling_altdef)
  then show ?thesis by (simp add: is_float_def Let_def fp_ulp_def)
qed

lemma rnd_is_float_pos:
  assumes "0 < prec fmt" "0 < x"
  shows "is_float fmt (rnd fmt x)"
proof -
  let ?ex = "fp_exp x" and ?p = "int (prec fmt)"
  define a where "a = max ?ex (emin fmt) - ?p + 1"
  have u: "fp_ulp fmt x = 2 powi a" using assms(2) by (simp add: fp_ulp_def a_def)
  define k where "k = round_even (x / fp_ulp fmt x)"
  have r: "rnd fmt x = of_int k * 2 powi a" by (simp add: rnd_def Let_def k_def u)
  define c where "c = max (?ex + 1) (emin fmt)"
  have ac: "a \<le> c" using assms(1) by (simp add: a_def c_def)
  have xT: "x \<le> 2 powi c"
  proof -
    have "x < 2 powi (?ex + 1)" using fp_exp_bounds[OF assms(2)] by simp
    also have "\<dots> \<le> 2 powi c" by (simp add: c_def)
    finally show ?thesis by simp
  qed
  have rT: "rnd fmt x \<le> 2 powi c"
    using round_even_grid(1)[OF fp_ulp_pos, of x "2 ^ nat (c - a)" fmt x] xT pow2_grid[OF ac]
    by (simp add: rnd_def Let_def u)
  have r0: "0 \<le> rnd fmt x" using assms(2) by (simp add: rnd_nonneg)
  show ?thesis
  proof (cases "rnd fmt x = 0")
    case True
    then show ?thesis by (simp add: is_float_def)
  next
    case False
    let ?er = "fp_exp \<bar>rnd fmt x\<bar>"
    have rp: "0 < \<bar>rnd fmt x\<bar>" using False by simp
    have erb: "2 powi ?er \<le> rnd fmt x" using fp_exp_bounds[OF rp] r0 by simp
    have erc: "?er \<le> c" using erb rT by (metis order.trans pow2_le_iff)
    show ?thesis
    proof (cases "max ?er (emin fmt) \<le> max ?ex (emin fmt)")
      case True
      then have "fp_ulp fmt (rnd fmt x) \<le> 2 powi a" by (simp add: fp_ulp_def a_def)
      then show ?thesis using r by (intro grid_is_float) auto
    next
      case False
      then have er: "?er = ?ex + 1" "emin fmt < ?er" using erc by (auto simp: c_def max_def split: if_splits)
      then have "c = ?er" by (simp add: c_def)
      then have eq: "rnd fmt x = 2 powi ?er" using erb rT by simp
      define b where "b = ?er - ?p + 1"
      have "?er \<ge> b" using assms(1) by (simp add: b_def)
      then have g: "(2::real) powi ?er = of_int (2 ^ nat (?er - b)) * 2 powi b" by (rule pow2_grid)
      have "fp_ulp fmt (rnd fmt x) = 2 powi b" using er(2) by (simp add: fp_ulp_def b_def)
      then show ?thesis using eq g by (intro grid_is_float[of _ "2 ^ nat (?er - b)" "2 powi b" b]) simp_all
    qed
  qed
qed

lemma rnd_is_float:
  assumes "0 < prec fmt" shows "is_float fmt (rnd fmt x)"
proof -
  consider "0 < x" | "x = 0" | "0 < - x" by linarith
  then show ?thesis
  proof cases
    case 1
    then show ?thesis by (rule rnd_is_float_pos[OF assms])
  next
    case 2
    then show ?thesis by (simp add: is_float_def)
  next
    case 3
    then have "is_float fmt (rnd fmt (- x))" by (rule rnd_is_float_pos[OF assms])
    then show ?thesis by (simp add: rnd_uminus)
  qed
qed

lemma rnd_idem: "0 < prec fmt \<Longrightarrow> rnd fmt (rnd fmt x) = rnd fmt x"
  by (rule float_rnd[OF rnd_is_float])

text \<open>Evaluation of a rounding on a concrete value by \<open>simp\<close>.\<close>

lemmas fp_eval = fp_round_def rnd_def fp_ulp_def fp_exp_def round_even_def compute_bitlen

end
