(* ===== verification/Driver.thy ===== *)
theory Driver
  imports Engine Float
begin

text \<open>
  The program's own source, \<open>src/src/main.rs\<close>: argument record, image loading into
  three channel matrices, the cut budget (\<open>width\<close>) computed in \<open>f64\<close> and cast to
  \<open>usize\<close>, one engine per channel driven \<open>width\<close> times with a generator seeded
  with 0, the debug log of the normalised error, and the encoding of the three
  reconstructions back to bytes by \<open>to_u8\<close>.

  Floating-point values and operations are those of \<open>Float\<close> (IEEE-754 rounding to
  nearest, special values, saturating casts).  \<open>usize\<close> is
  \<open>64 word\<close> (wrap-around as in a release build), \<open>u32\<close> is \<open>32 word\<close>.  The image
  codec, the file system and the argument parser are external: \<open>angus_main\<close> takes
  their results as parameters.  This theory holds the definitions and the properties
  of the arithmetic (\<open>to_u8\<close>, the budget, the \<open>usize\<close> products); the properties of
  the composed program are in \<open>Program\<close>.
\<close>

record args =
  input :: string
  output_arg :: string
  compression_rate :: fval
  block_size :: usize
  threads :: "usize option"

datatype failure =
    ArgsError
  | ImageError
  | SaveError
  | PanicNonFinite
  | PanicConfig config_error

record rgb_image =
  img_width :: "32 word"
  img_height :: "32 word"
  pixel :: "nat \<Rightarrow> nat \<Rightarrow> u8 \<times> u8 \<times> u8"

section \<open>\<open>to_u8\<close>, loading, budget, per-channel loop, output\<close>

text \<open>\<open>fn to_u8(x: f32) -> u8\<close>: the assertion is a panic.\<close>

definition to_u8 :: "fval \<Rightarrow> failure + u8" where
  "to_u8 x =
     (case x of
        Fin r \<Rightarrow> Inr (u8_of_f32 (f32_round (f32_clamp 0 255 r)))
      | _ \<Rightarrow> Inl PanicNonFinite)"

definition chan :: "nat \<Rightarrow> u8 \<times> u8 \<times> u8 \<Rightarrow> u8" where
  "chan c p = (case p of (r, g, b) \<Rightarrow> if c = 0 then r else if c = 1 then g else b)"

text \<open>
  \<open>img.dimensions()\<close> is \<open>(width, height)\<close>, bound to \<open>(nrows, ncols)\<close>; the pixel at
  \<open>(x, y)\<close> goes to entry \<open>(x, y)\<close> of each channel matrix, so a matrix row is an image
  column.  Every entry is written, so the zero initialisation is overwritten.
\<close>

definition channel_mat :: "rgb_image \<Rightarrow> nat \<Rightarrow> mat" where
  "channel_mat img c =
     map (\<lambda>x. map (\<lambda>y. real (unat (chan c (pixel img x y)))) [0..<unat (img_height img)])
       [0..<unat (img_width img)]"

definition load_channels :: "rgb_image \<Rightarrow> mat list" where
  "load_channels img = map (channel_mat img) [0, 1, 2]"

definition nbits_per_color :: "usize \<Rightarrow> usize \<Rightarrow> usize" where
  "nbits_per_color n_rows n_cols = n_rows * n_cols * 8"

definition nbits_per_cut :: "usize \<Rightarrow> usize \<Rightarrow> usize" where
  "nbits_per_cut n_rows n_cols = n_rows + n_cols + 32"

definition budget_width :: "fval \<Rightarrow> usize \<Rightarrow> usize \<Rightarrow> usize" where
  "budget_width rate n_rows n_cols =
     usize_of_f64 (fdiv (fmul rate (f64_of_usize (nbits_per_color n_rows n_cols)))
                        (f64_of_usize (nbits_per_cut n_rows n_cols)))"

definition normalization :: "usize \<Rightarrow> usize \<Rightarrow> real" where
  "normalization n_rows n_cols = f32_of_usize (255 * 255 * n_rows * n_cols)"

text \<open>The logged error \<open>(mat.squared_norm_l2() / normalization).sqrt()\<close> in \<open>f32\<close>: the
  quotient and the square root are each rounded.  Neither overflows: the normaliser is
  at least 1 for a non-empty image and the squared norm is an \<open>f32\<close> value.\<close>

definition log_err :: "real \<Rightarrow> real \<Rightarrow> real" where
  "log_err sq nrm = rnd binary32 (sqrt (rnd binary32 (sq / nrm)))"

text \<open>
  \<open>for w in 0..width { mat.cut(rng); dbg!(w, (mat.squared_norm_l2() / normalization).sqrt()); }\<close>
\<close>

fun channel_loop ::
  "'g draw \<Rightarrow> nat \<Rightarrow> real \<Rightarrow> nat \<Rightarrow> nat \<Rightarrow> sct \<Rightarrow> 'g \<Rightarrow> (nat \<times> real) list \<times> sct \<times> 'g" where
  "channel_loop draw cap nrm w 0 s g = ([], s, g)"
| "channel_loop draw cap nrm w (Suc k) s g =
     (let (r, s', g') = sct_cut draw cap s g;
          (logs, s'', g'') = channel_loop draw cap nrm (Suc w) k s' g'
      in ((w, log_err (squared_norm_l2 s') nrm) # logs, s'', g''))"

text \<open>One channel: a fresh generator seeded with 0, the loop, then \<open>expand\<close>.\<close>

definition channel_run ::
  "'g draw \<Rightarrow> 'g \<Rightarrow> nat \<Rightarrow> real \<Rightarrow> nat \<Rightarrow> sct \<Rightarrow> (nat \<times> real) list \<times> mat" where
  "channel_run draw seed0 cap nrm width s =
     (let (logs, s', g') = channel_loop draw cap nrm 0 width s seed0 in (logs, expand s'))"

text \<open>\<open>ImageBuffer::from_fn(n_rows, n_cols, ...)\<close>: a panic of \<open>to_u8\<close> at any pixel aborts.\<close>

definition output_image :: "32 word \<Rightarrow> 32 word \<Rightarrow> mat list \<Rightarrow> failure + rgb_image" where
  "output_image W H mats =
     (let px = (\<lambda>c i j. to_u8 (Fin (mats ! c ! i ! j)));
          coords = List.product [0..<unat W] [0..<unat H]
      in if list_all (\<lambda>(i, j). list_all (\<lambda>c. \<not> isl (px c i j)) [0, 1, 2]) coords
         then Inr \<lparr>img_width = W, img_height = H,
                   pixel = (\<lambda>i j. (projr (px 0 i j), projr (px 1 i j), projr (px 2 i j)))\<rparr>
         else Inl PanicNonFinite)"

text \<open>
  \<open>fn main()\<close>: \<open>parsed\<close> is the result of \<open>Args::try_parse()\<close>, \<open>open_img\<close> decodes a
  path, \<open>save\<close> writes the result; \<open>draw\<close>, \<open>seed0\<close> are the generator and
  \<open>StdRng::seed_from_u64(0)\<close>, and \<open>cap\<close> the round cap of the engine's search.
  \<open>SctHelper::new\<close> has no error path at the call site, so its configuration error
  is a panic.  \<open>threads\<close> is parsed and not used.
\<close>

definition angus_main ::
  "'g draw \<Rightarrow> 'g \<Rightarrow> nat \<Rightarrow> failure + args \<Rightarrow> (string \<Rightarrow> failure + rgb_image) \<Rightarrow>
   (string \<Rightarrow> rgb_image \<Rightarrow> failure + unit) \<Rightarrow> failure + rgb_image" where
  "angus_main draw seed0 cap parsed open_img save =
     (case parsed of
        Inl e \<Rightarrow> Inl e
      | Inr a \<Rightarrow>
          (case open_img (input a) of
             Inl e \<Rightarrow> Inl e
           | Inr img \<Rightarrow>
               (let n_rows = (ucast (img_width img) :: usize);
                    n_cols = (ucast (img_height img) :: usize);
                    rgb = load_channels img;
                    width = budget_width (compression_rate a) n_rows n_cols;
                    scts = map (\<lambda>m. sct_new m (unat n_rows) (unat n_cols) (unat (block_size a))
                                        (unat width)) rgb
                in case find isl scts of
                     Some (Inl e) \<Rightarrow> Inl (PanicConfig e)
                   | _ \<Rightarrow>
                       (let nrm = normalization n_rows n_cols;
                            mats = map (\<lambda>s. snd (channel_run draw seed0 cap nrm (unat width)
                                                               (projr s))) scts
                        in case output_image (img_width img) (img_height img) mats of
                             Inl e \<Rightarrow> Inl e
                           | Inr out \<Rightarrow>
                               (case save (output_arg a) out of
                                  Inl e \<Rightarrow> Inl e
                                | Inr _ \<Rightarrow> Inr out)))))"

text \<open>Arguments and an input image for the examples below: the target of the engine's
  examples as a grey \<open>3 \<times> 2\<close> image.\<close>

abbreviation ex_args :: args where
  "ex_args \<equiv> \<lparr>input = ''in.png'', output_arg = ''out.png'', compression_rate = Fin 1,
               block_size = 2, threads = None\<rparr>"

abbreviation ex_img :: rgb_image where
  "ex_img \<equiv> \<lparr>img_width = 3, img_height = 2,
              pixel = (\<lambda>x y. let b = of_nat (nat \<lfloor>ex_target ! x ! y\<rfloor>) in (b, b, b))\<rparr>"

section \<open>\<open>to_u8\<close>\<close>

lemma to_u8_Fin:
  "to_u8 (Fin r) = Inr (of_nat (nat \<lfloor>f32_clamp 0 255 r + 1 / 2\<rfloor>))"
proof -
  let ?c = "f32_clamp 0 255 r"
  let ?k = "\<lfloor>?c + 1 / 2\<rfloor>"
  have c: "0 \<le> ?c" "?c \<le> 255" using f32_clamp_range[of r] by simp_all
  have k0: "0 \<le> ?k" using c by simp
  have k255: "?k \<le> 255" using c by linarith
  have "f32_round ?c = of_int ?k" using c by (simp add: f32_round_def)
  moreover have "u8_of_f32 (of_int ?k) = of_nat (nat ?k)"
    using k0 k255 by (rule u8_of_f32_of_int)
  ultimately show ?thesis by (simp add: to_u8_def)
qed

lemma unat_to_u8_Fin:
  "to_u8 (Fin r) = Inr b \<Longrightarrow> unat b = nat \<lfloor>f32_clamp 0 255 r + 1 / 2\<rfloor>"
proof -
  assume "to_u8 (Fin r) = Inr b"
  then have b: "b = of_nat (nat \<lfloor>f32_clamp 0 255 r + 1 / 2\<rfloor>)" by (simp add: to_u8_Fin)
  have "nat \<lfloor>f32_clamp 0 255 r + 1 / 2\<rfloor> < 256"
    using f32_clamp_range[of r] by linarith
  then show ?thesis by (simp add: b unat_of_nat)
qed

text \<open>C10. \<open>to_u8\<close> panics exactly on a non-finite value; on a finite \<open>x\<close> it returns
  the byte \<open>\<lfloor>clamp(x, 0, 255) + 1/2\<rfloor>\<close>, within one half of the clamped value.\<close>

theorem to_u8_spec:
  "(to_u8 x = Inl PanicNonFinite \<longleftrightarrow> (\<forall>r. x \<noteq> Fin r)) \<and>
   (\<forall>r. x = Fin r \<longrightarrow>
      (\<exists>b. to_u8 x = Inr b \<and> unat b = nat \<lfloor>f32_clamp 0 255 r + 1 / 2\<rfloor> \<and>
           \<bar>real (unat b) - f32_clamp 0 255 r\<bar> \<le> 1 / 2))"
proof (cases x)
  case (Fin r)
  let ?c = "f32_clamp 0 255 r"
  obtain b where b: "to_u8 (Fin r) = Inr b" by (simp add: to_u8_Fin)
  have u: "unat b = nat \<lfloor>?c + 1 / 2\<rfloor>" using b by (rule unat_to_u8_Fin)
  have "0 \<le> \<lfloor>?c + 1 / 2\<rfloor>" using f32_clamp_range[of r] by simp
  then have e: "real (unat b) = of_int \<lfloor>?c + 1 / 2\<rfloor>" by (simp add: u del: of_nat_unat)
  have "\<bar>real (unat b) - ?c\<bar> \<le> 1 / 2"
    using e of_int_floor_le[of "?c + 1 / 2"] real_of_int_floor_add_one_gt[of "?c + 1 / 2"]
    by linarith
  with Fin b u show ?thesis by (simp del: of_nat_unat)
qed (simp_all add: to_u8_def)

section \<open>The debug log\<close>

lemma log_err_mono: "0 \<le> nrm \<Longrightarrow> x \<le> y \<Longrightarrow> log_err x nrm \<le> log_err y nrm"
  unfolding log_err_def by (intro rnd_mono real_sqrt_le_mono divide_right_mono) simp_all

lemma log_err_zero [simp]: "log_err 0 nrm = 0"
  by (simp add: log_err_def)

section \<open>The cut budget\<close>

declare of_nat_unat [simp del]

lemma unat_ucast_32: "unat (ucast (W :: 32 word) :: usize) = unat W"
proof -
  have "unat W < 2 ^ 64" using unsigned_less[of W, where ?'a = nat] by simp
  then show ?thesis by (simp add: unsigned_ucast_eq take_bit_nat_eq_self_iff)
qed

lemma unat_32_lt: "unat (W :: 32 word) < 2 ^ 32"
  using unsigned_less[of W] by simp

lemma unat_nbits_per_cut:
  "unat (nbits_per_cut (ucast W) (ucast H)) = unat (W :: 32 word) + unat (H :: 32 word) + 32"
proof -
  have "unat W < 2 ^ 32" "unat H < 2 ^ 32" using unsigned_less[of W] unsigned_less[of H] by simp_all
  then have "unat W + unat H + 32 < (2::nat) ^ 64" by simp
  then show ?thesis
    by (simp add: nbits_per_cut_def unat_word_ariths unat_ucast_32)
qed

lemma unat_nbits_per_color:
  "unat (nbits_per_color (ucast W) (ucast H)) = (unat (W :: 32 word) * unat (H :: 32 word) * 8) mod 2 ^ 64"
  by (simp add: nbits_per_color_def unat_word_ariths unat_ucast_32 mod_mult_left_eq mod_mult_right_eq)

text \<open>\<open>nbits_per_cut as f64\<close> is exact: \<open>W + H + 32 < 2\<^sup>3\<^sup>4\<close>.\<close>

lemma f64_nbits_per_cut:
  "f64_of_usize (nbits_per_cut (ucast W) (ucast H)) = Fin (real (unat (W :: 32 word) + unat (H :: 32 word) + 32))"
proof -
  have "unat W < 2 ^ 32" "unat H < 2 ^ 32" using unsigned_less[of W] unsigned_less[of H] by simp_all
  then have "unat W + unat H + 32 < (2::nat) ^ 53" by simp
  then show ?thesis by (simp add: f64_of_usize_exact unat_nbits_per_cut)
qed

lemma f64_nbits_per_color:
  "unat W * unat H * 8 < 2 ^ 64 \<Longrightarrow>
   f64_of_usize (nbits_per_color (ucast W) (ucast H)) = Fin (rnd binary64 (real (unat (W :: 32 word) * unat (H :: 32 word) * 8)))"
  by (simp add: f64_of_usize_def unat_nbits_per_color)

text \<open>C11. For a whole-number rate \<open>k\<close> whose bit count \<open>k \<cdot> 8 W H\<close> is below \<open>2\<^sup>5\<^sup>3\<close>, every
  step of the \<open>f64\<close> computation is exact but the last division, and its rounding
  never reaches the next integer: the budget is exactly \<open>k \<cdot> 8 W H div (W + H + 32)\<close>.\<close>

theorem budget_width_spec:
  assumes "0 < k" "k * (unat W * unat H * 8) < 2 ^ 53"
  shows "unat (budget_width (Fin (real k)) (ucast W) (ucast (H :: 32 word))) =
         k * (unat (W :: 32 word) * unat H * 8) div (unat W + unat H + 32)"
proof -
  let ?X = "unat W * unat H * 8" and ?Y = "unat W + unat H + 32"
  let ?kX = "k * ?X"
  have "?X \<le> ?kX" using assms(1) by simp
  then have X: "?X < 2 ^ 53" using assms(2) by (rule le_less_trans)
  have kX: "real ?kX < 2 ^ 53" using assms(2) by (simp only: of_nat_less_numeral_power_cancel_iff)
  have "f64_of_usize (nbits_per_color (ucast W) (ucast H)) = Fin (real ?X)"
    using X f64_nbits_per_color[of W H] by (simp add: rnd64_of_nat del: of_nat_mult)
  moreover have "fmul (Fin (real k)) (Fin (real ?X)) = Fin (real ?kX)"
  proof -
    have "\<bar>real ?kX\<bar> < 2 powi 1023" using kX by simp
    then have "fp_round binary64 (real ?kX) = Fin (rnd binary64 (real ?kX))" by (simp add: fp_round_Fin)
    then have "fp_round binary64 (real ?kX) = Fin (real ?kX)" using rnd64_of_nat[OF assms(2)] by (simp del: of_nat_mult)
    then show ?thesis by (simp only: fmul.simps of_nat_mult)
  qed
  moreover have "fdiv (Fin (real ?kX)) (Fin (real ?Y)) = Fin (rnd binary64 (real ?kX / real ?Y))"
  proof -
    have "1 \<le> real ?Y" by (simp del: of_nat_add)
    then have "real ?kX / real ?Y \<le> real ?kX / 1" by (intro frac_le) simp_all
    then have "real ?kX / real ?Y \<le> real ?kX" by simp
    then have "real ?kX / real ?Y < 2 ^ 53" using kX by linarith
    moreover have "(2::real) ^ 53 < 2 powi 1023" by simp
    moreover have q0: "0 \<le> real ?kX / real ?Y" by simp
    ultimately have "\<bar>real ?kX / real ?Y\<bar> < 2 powi 1023" by (simp only: abs_of_nonneg[OF q0])
    then show ?thesis by (simp add: fp_round_Fin del: of_nat_mult of_nat_add)
  qed
  moreover have "\<lfloor>rnd binary64 (real ?kX / real ?Y)\<rfloor> = int (?kX div ?Y)"
  proof (rule floor_rnd_div)
    have "?Y < 2 ^ 34" using unat_32_lt[of W] unat_32_lt[of H] by simp
    then have "real ?Y < 2 ^ 34" by (simp only: of_nat_less_numeral_power_cancel_iff)
    moreover have "(2::real) ^ 34 < 2 powi (- emin binary64)" by simp
    ultimately show "real ?Y < 2 powi (- emin binary64)" by (rule less_trans)
  qed (use assms(2) in simp_all)
  moreover have "?kX div ?Y < 2 ^ 64 - 1"
  proof -
    have "?kX div ?Y < 2 ^ 53" using le_less_trans[OF div_le_dividend assms(2)] .
    moreover have "(2::nat) ^ 53 < 2 ^ 64 - 1" by simp
    ultimately show ?thesis by (rule less_trans)
  qed
  moreover have "0 \<le> rnd binary64 (real ?kX / real ?Y)" by (simp add: rnd_nonneg)
  ultimately show ?thesis
    by (simp add: budget_width_def f64_nbits_per_cut usize_of_f64_Fin_nonneg del: of_nat_mult of_nat_add)
qed

text \<open>C12. For every finite rate \<open>c \<ge> 0\<close>, an image whose bit count fits in a \<open>usize\<close> and
  an exact quotient \<open>q = c \<cdot> 8 W H / (W + H + 32)\<close> up to \<open>2\<^sup>5\<^sup>0\<close>, the budget computed in
  \<open>f64\<close> is within one cut of \<open>\<lfloor>q\<rfloor>\<close>, the count the budget formula asks for.\<close>

theorem budget_width_error:
  assumes "0 \<le> c" "unat W * unat H * 8 < 2 ^ 64"
    "c * real (unat W * unat H * 8) / real (unat W + unat H + 32) \<le> 2 ^ 50"
  shows "\<bar>int (unat (budget_width (Fin c) (ucast W) (ucast (H :: 32 word)))) -
          \<lfloor>c * real (unat (W :: 32 word) * unat H * 8) / real (unat W + unat H + 32)\<rfloor>\<bar> \<le> 1"
proof (cases "unat W * unat H * 8 = 0")
  case True
  then have z: "real (unat W * unat H * 8) = 0" by (simp only: of_nat_eq_0_iff)
  have "f64_of_usize (nbits_per_color (ucast W) (ucast H)) = Fin 0"
    using f64_nbits_per_color[OF assms(2)] by (simp only: z rnd_zero)
  then have "budget_width (Fin c) (ucast W) (ucast H) = 0"
    by (simp add: budget_width_def f64_nbits_per_cut usize_of_f64_def)
  then show ?thesis by (simp only: z mult_zero_right div_0) simp
next
  case False
  let ?X = "real (unat W * unat H * 8)" and ?Y = "real (unat W + unat H + 32)"
  have X: "1 \<le> ?X" using False by linarith
  have Y: "1 \<le> ?Y" "?Y \<le> 2 ^ 64"
  proof -
    have "unat W + unat H + 32 \<le> 2 ^ 64" using unat_32_lt[of W] unat_32_lt[of H] by simp
    then show "1 \<le> ?Y" "?Y \<le> 2 ^ 64" by (simp_all only: of_nat_le_numeral_power_cancel_iff)
  qed
  obtain Q where Q: "fdiv (fmul (Fin c) (Fin (rnd binary64 ?X))) (Fin ?Y) = Fin Q" "0 \<le> Q"
    "\<bar>Q - c * ?X / ?Y\<bar> < 1"
    using fmul_fdiv_err[OF assms(1) X Y assms(3)] by blast
  have b: "budget_width (Fin c) (ucast W) (ucast H) = usize_of_f64 (Fin Q)"
    using assms(2) Q(1) by (simp add: budget_width_def f64_nbits_per_color f64_nbits_per_cut del: of_nat_add)
  have "Q < 2 ^ 50 + 1" using Q(3) assms(3) by linarith
  then have "\<lfloor>Q\<rfloor> < 2 ^ 50 + 1" by (simp add: floor_less_iff)
  then have "nat \<lfloor>Q\<rfloor> < 2 ^ 64 - 1" using Q(2) by (simp add: nat_less_iff)
  then have "int (unat (budget_width (Fin c) (ucast W) (ucast H))) = \<lfloor>Q\<rfloor>"
    using Q(2) by (simp add: b usize_of_f64_Fin_nonneg)
  then show ?thesis using Q(3) by linarith
qed

lemma budget_width_zero:
  assumes "rate = NaN \<or> rate = NegInf \<or> (\<exists>c \<le> 0. rate = Fin c)"
  shows "budget_width rate n m = 0"
  unfolding budget_width_def f64_of_usize_def
  by (intro usize_of_f64_fdiv_nonpos fmul_nonpos assms rnd_nonneg) simp_all

text \<open>C13. An invalid rate is not reported: NaN, minus infinity and every negative
  rate give a budget of zero cuts, and plus infinity gives \<open>usize::MAX\<close> cuts for any
  non-empty image.\<close>

theorem budget_width_invalid_rate:
  "budget_width NaN n m = 0 \<and> budget_width NegInf n m = 0 \<and>
   (c < 0 \<longrightarrow> budget_width (Fin c) n m = 0) \<and>
   (0 < unat (nbits_per_color n m) \<longrightarrow> budget_width PosInf n m = - 1)"
proof -
  have "budget_width NaN n m = 0" "budget_width NegInf n m = 0"
    by (simp_all add: budget_width_zero)
  moreover have "c < 0 \<longrightarrow> budget_width (Fin c) n m = 0"
    by (auto intro: budget_width_zero)
  moreover have "budget_width PosInf n m = - 1" if "0 < unat (nbits_per_color n m)"
  proof -
    have "1 \<le> rnd binary64 (real (unat (nbits_per_color n m)))"
      using that by (intro rnd_ge_one) simp_all
    moreover have "0 \<le> rnd binary64 (real (unat (nbits_per_cut n m)))" by (simp add: rnd_nonneg)
    ultimately show ?thesis by (simp add: budget_width_def f64_of_usize_def usize_of_f64_def)
  qed
  ultimately show ?thesis by blast
qed

lemma unat_normalization:
  "unat (65025 * ucast W * ucast H :: usize) = (65025 * (unat (W :: 32 word) * unat (H :: 32 word))) mod 2 ^ 64"
  by (simp add: unat_word_ariths unat_ucast_32 mod_mult_left_eq mod_mult_right_eq mult.assoc)

lemma mod_2_64_odd_ne_0:
  assumes "0 < p" "p < (2::nat) ^ 64" shows "(65025 * p) mod 2 ^ 64 \<noteq> 0"
proof
  assume "(65025 * p) mod 2 ^ 64 = 0"
  then have d: "(2::nat) ^ 64 dvd 65025 * p" by (simp add: mod_eq_0_iff_dvd)
  have "coprime (2::nat) 65025" by (simp add: coprime_left_2_iff_odd)
  then have "coprime ((2::nat) ^ 64) 65025" by (metis coprime_power_left_iff)
  then have "(2::nat) ^ 64 dvd p" using d by (simp add: coprime_dvd_mult_right_iff)
  then show False using assms by (simp add: nat_dvd_not_less)
qed

text \<open>C14. The normaliser of the debug log, \<open>(255 * 255 * nrows * ncols) as f32\<close>: the
  product is computed in \<open>usize\<close> and rounded to \<open>f32\<close>.  It is never zero for a
  non-empty image, so the logged error is never a division by zero; it is the exact
  \<open>65025 W H\<close> when that product is below \<open>2\<^sup>2\<^sup>4\<close>, and within a relative \<open>2\<^sup>-\<^sup>2\<^sup>4\<close> of it
  whenever the product fits in 64 bits.\<close>

theorem normalization_spec:
  "(W \<noteq> 0 \<longrightarrow> H \<noteq> 0 \<longrightarrow> 1 \<le> normalization (ucast W) (ucast H)) \<and>
   (65025 * (unat W * unat H) < 2 ^ 24 \<longrightarrow>
      normalization (ucast W) (ucast H) = 65025 * real (unat (W :: 32 word)) * real (unat (H :: 32 word))) \<and>
   (65025 * (unat W * unat H) < 2 ^ 64 \<longrightarrow>
      \<bar>normalization (ucast W) (ucast H) - 65025 * real (unat W) * real (unat H)\<bar> \<le>
      65025 * real (unat W) * real (unat H) / 2 ^ 24)"
proof -
  let ?N = "(65025 * (unat W * unat H)) mod 2 ^ 64"
  have n: "normalization (ucast W) (ucast H) = rnd binary32 (real ?N)"
    by (simp add: normalization_def f32_of_usize_def unat_normalization)
  have lt: "unat W * unat H < 2 ^ 64"
  proof -
    have "unat W < 2 ^ 32" "unat H < 2 ^ 32" using unsigned_less[of W] unsigned_less[of H] by simp_all
    then have "unat W * unat H < 2 ^ 32 * 2 ^ 32" by (intro mult_strict_mono) simp_all
    then show ?thesis by simp
  qed
  have pos: "W \<noteq> 0 \<longrightarrow> H \<noteq> 0 \<longrightarrow> 1 \<le> normalization (ucast W) (ucast H)"
  proof (intro impI)
    assume "W \<noteq> 0" "H \<noteq> 0"
    then have "?N \<noteq> 0" using mod_2_64_odd_ne_0[OF _ lt] by (simp add: unat_gt_0)
    then show "1 \<le> normalization (ucast W) (ucast H)" unfolding n by (intro rnd_ge_one) simp_all
  qed
  have ex: "65025 * (unat W * unat H) < 2 ^ 24 \<longrightarrow>
      normalization (ucast W) (ucast H) = 65025 * real (unat W) * real (unat H)"
  proof
    assume a: "65025 * (unat W * unat H) < 2 ^ 24"
    then have "?N = 65025 * (unat W * unat H)" by simp
    then show "normalization (ucast W) (ucast H) = 65025 * real (unat W) * real (unat H)"
      unfolding n using rnd32_of_nat[OF a] by simp
  qed
  have rel: "\<bar>normalization (ucast W) (ucast H) - 65025 * real (unat W) * real (unat H)\<bar> \<le>
      65025 * real (unat W) * real (unat H) / 2 ^ 24" if "65025 * (unat W * unat H) < 2 ^ 64"
  proof (cases "unat W * unat H = 0")
    case False
    have N: "?N = 65025 * (unat W * unat H)" using that by simp
    have "1 \<le> ?N" using False N by simp
    then have "1 \<le> real ?N" by (metis of_nat_1 of_nat_le_iff)
    moreover have "(2::real) powi emin binary32 \<le> 1" by simp
    ultimately have "2 powi emin binary32 \<le> \<bar>real ?N\<bar>" by linarith
    then have "\<bar>rnd binary32 (real ?N) - real ?N\<bar> \<le> 2 powi (- 24) * \<bar>real ?N\<bar>"
      using rnd_err_normal[of binary32 "real ?N"] by simp
    then show ?thesis unfolding n N by (simp add: power_int_minus_divide mult.assoc)
  next
    case True
    then have z: "?N = 0" "real (unat W) * real (unat H) = 0"
      by (simp_all only: mult_0_right mod_0 of_nat_mult[symmetric] of_nat_0)
    show ?thesis unfolding n
      by (simp only: z mult.assoc mult_zero_right diff_zero div_0) simp
  qed
  show ?thesis using pos ex rel by blast
qed

section \<open>Examples\<close>

lemma ex_budget: "budget_width (Fin 1) (ucast (3 :: 32 word)) (ucast (2 :: 32 word)) = 1"
  by (simp add: budget_width_def nbits_per_color_def nbits_per_cut_def f64_of_usize_def
      usize_of_f64_def fp_eval)

lemma ex_budget': "budget_width (Fin 1) 3 2 = 1"
  using ex_budget by simp

lemma ex_channel_mat: "c < 3 \<Longrightarrow> channel_mat ex_img c = ex_target"
  by (simp add: channel_mat_def chan_def Let_def upt_rec unat_of_nat)

theorem to_u8_spec_witness:
  "(\<exists>b. to_u8 (Fin (7 / 10)) = Inr b \<and> unat b = 1) \<and> to_u8 NaN = Inl PanicNonFinite"
proof -
  have "\<exists>b. to_u8 (Fin (7 / 10)) = Inr b \<and> unat b = nat \<lfloor>f32_clamp 0 255 (7 / 10) + 1 / 2\<rfloor>"
    using conjunct2[OF to_u8_spec[of "Fin (7 / 10)"]] by blast
  moreover have "nat \<lfloor>f32_clamp 0 255 (7 / 10 :: real) + 1 / 2\<rfloor> = 1"
    by (simp add: f32_clamp_def)
  moreover have "to_u8 NaN = Inl PanicNonFinite" using to_u8_spec[of NaN] by simp
  ultimately show ?thesis by simp
qed

theorem budget_width_spec_witness:
  "unat (budget_width (Fin 1) (ucast (100 :: 32 word)) (ucast (50 :: 32 word))) = 219"
  using budget_width_spec[of 1 "100 :: 32 word" "50 :: 32 word"] by simp

text \<open>The \<open>f64\<close> nearest to \<open>0.3\<close> is \<open>5404319552844595 / 2\<^sup>5\<^sup>4\<close>, slightly below it.  On a
  \<open>6 \<times> 10\<close> image the exact quotient \<open>c \<cdot> 480 / 48\<close> is just below 3, but the product
  \<open>c \<cdot> 480\<close> rounds to \<open>144\<close> and the budget is 3 cuts.\<close>

theorem budget_width_error_witness:
  "\<bar>int (unat (budget_width (Fin (5404319552844595 / 2 ^ 54)) (ucast (6 :: 32 word)) (ucast (10 :: 32 word)))) -
     \<lfloor>5404319552844595 / 2 ^ 54 * real (unat (6 :: 32 word) * unat (10 :: 32 word) * 8) /
       real (unat (6 :: 32 word) + unat (10 :: 32 word) + 32)\<rfloor>\<bar> \<le> 1 \<and>
   unat (budget_width (Fin (5404319552844595 / 2 ^ 54)) (ucast (6 :: 32 word)) (ucast (10 :: 32 word))) = 3 \<and>
   \<lfloor>5404319552844595 / 2 ^ 54 * real (unat (6 :: 32 word) * unat (10 :: 32 word) * 8) /
     real (unat (6 :: 32 word) + unat (10 :: 32 word) + 32)\<rfloor> = 2"
proof -
  have b: "budget_width (Fin (5404319552844595 / 2 ^ 54)) (ucast (6 :: 32 word)) (ucast (10 :: 32 word)) = 3"
    by (simp add: budget_width_def nbits_per_color_def nbits_per_cut_def f64_of_usize_def
        usize_of_f64_def fp_eval)
  have f: "\<lfloor>5404319552844595 / 2 ^ 54 * real (unat (6 :: 32 word) * unat (10 :: 32 word) * 8) /
     real (unat (6 :: 32 word) + unat (10 :: 32 word) + 32)\<rfloor> = 2"
    by simp
  show ?thesis
    using budget_width_error[of "5404319552844595 / 2 ^ 54" "6 :: 32 word" "10 :: 32 word"] b f by simp
qed

theorem budget_width_invalid_rate_witness:
  "budget_width (Fin (- 1)) 100 50 = 0 \<and> budget_width PosInf 100 50 = - 1"
  using budget_width_invalid_rate[of 100 50 "- 1"] by (simp add: nbits_per_color_def)

theorem normalization_spec_witness:
  "1 \<le> normalization (ucast (3 :: 32 word)) (ucast (2 :: 32 word)) \<and>
   normalization (ucast (3 :: 32 word)) (ucast (2 :: 32 word)) = 390150"
  using normalization_spec[of "3 :: 32 word" "2 :: 32 word"] by simp

end
