(* ===== verification/Program.thy ===== *)
theory Program
  imports Driver
begin

text \<open>
  Properties of the composed program of \<open>src/src/main.rs\<close>: the per-channel loop
  (\<open>channel_loop\<close>, \<open>channel_run\<close>) over the engine of \<open>Engine\<close>, and \<open>angus_main\<close>
  as a whole: the debug log, the reconstruction, the refinement of the abstract greedy
  decomposition, the bounded number of generator draws, the independence of the block
  size, the failure paths, the output image, the zero-budget case and the preservation
  of grey images.  The examples run
  the program on a \<open>3 \<times> 2\<close> grey image with the generator \<open>lcg_draw\<close>.
\<close>

text \<open>A grey pixel has equal red, green and blue bytes.\<close>

definition is_grey :: "u8 \<times> u8 \<times> u8 \<Rightarrow> bool" where
  "is_grey p \<longleftrightarrow> fst p = fst (snd p) \<and> fst (snd p) = snd (snd p)"

section \<open>The per-channel loop\<close>

lemma channel_loop_numeral:
  "channel_loop draw cap nrm w (numeral k) s g =
     (let (r, s', g') = sct_cut draw cap s g;
          (logs, s'', g'') = channel_loop draw cap nrm (Suc w) (pred_numeral k) s' g'
      in ((w, log_err (squared_norm_l2 s') nrm) # logs, s'', g''))"
  by (simp add: numeral_eq_Suc)

lemma channel_loop_1:
  "channel_loop draw cap nrm w 1 s g =
     (let (r, s', g') = sct_cut draw cap s g in ([(w, log_err (squared_norm_l2 s') nrm)], s', g'))"
  by (simp add: split_def)

lemma channel_loop_sct_run:
  assumes "sct_inv T s"
  shows "channel_loop draw cap nrm w k s g =
         (let (ns, s', g') = sct_run draw cap k s g
          in (zip [w..<w + k] (map (\<lambda>x. log_err x nrm) ns), s', g'))"
  using assms
proof (induction k arbitrary: w s g)
  case 0
  then show ?case by simp
next
  case (Suc k)
  obtain c x s1 g1 where st: "sct_cut draw cap s g = ((c, x), s1, g1)"
    by (cases "sct_cut draw cap s g") auto
  obtain ns s2 g2 where rn: "sct_run draw cap k s1 g1 = (ns, s2, g2)"
    by (cases "sct_run draw cap k s1 g1") auto
  have inv1: "sct_inv T s1" using Suc.prems st by (rule sct_cut_inv)
  have x: "x = squared_norm_l2 s1" using sct_cut_step[OF Suc.prems st] by simp
  have len: "length ns = k" using sct_run_props[OF inv1 rn] by simp
  have "[w..<w + Suc k] = w # [Suc w..<Suc w + k]" by (simp add: upt_rec)
  then show ?case
    using Suc.IH[OF inv1, of "Suc w" g1] st rn x len by simp
qed

lemma channel_loop_run:
  assumes "wf_mat n m T" "sct_new T n m b k = Inr s"
    and "channel_loop draw cap nrm w width s g = (logs, s', g')"
  obtains ns where "sct_run draw cap width s g = (ns, s', g')"
    and "logs = zip [w..<w + width] (map (\<lambda>x. log_err x nrm) ns)"
    and "sct_inv T s" "squared_norm_l2 s = mat_sqnorm T"
proof -
  have inv: "sct_inv T s" using assms(1,2) by (rule sct_new_inv)
  obtain ns s2 g2 where rn: "sct_run draw cap width s g = (ns, s2, g2)"
    by (cases "sct_run draw cap width s g") auto
  have "channel_loop draw cap nrm w width s g = (zip [w..<w + width] (map (\<lambda>x. log_err x nrm) ns), s2, g2)"
    using channel_loop_sct_run[OF inv, of draw cap nrm w width g] rn by simp
  with assms(3) have "logs = zip [w..<w + width] (map (\<lambda>x. log_err x nrm) ns)" "s2 = s'" "g2 = g'"
    by simp_all
  moreover have "squared_norm_l2 s = mat_sqnorm T"
    using assms(2) by (auto simp: sct_new_def squared_norm_l2_def split: if_splits)
  ultimately show ?thesis using that rn inv by simp
qed

lemma channel_loop_count:
  assumes "sct_inv T s" "channel_loop (count_draw draw) cap nrm w k s g = (logs, s', g')"
  shows "snd g' \<le> snd g + k * (ncols s + max 1 cap * (nrows s + ncols s))"
  using assms
proof (induction k arbitrary: w s g logs s' g')
  case (Suc k)
  obtain r s1 g1 where st: "sct_cut (count_draw draw) cap s g = (r, s1, g1)"
    by (cases "sct_cut (count_draw draw) cap s g") auto
  obtain L s2 g2 where lp: "channel_loop (count_draw draw) cap nrm (Suc w) k s1 g1 = (L, s2, g2)"
    by (cases "channel_loop (count_draw draw) cap nrm (Suc w) k s1 g1") auto
  have inv1: "sct_inv T s1" using Suc.prems(1) st by (rule sct_cut_inv)
  obtain c x where r: "r = (c, x)" by (cases r)
  have dims: "nrows s1 = nrows s" "ncols s1 = ncols s" using sct_cut_step[OF Suc.prems(1) st[unfolded r]] by simp_all
  have "g' = g2" using Suc.prems(2) st lp by simp
  then show ?case
    using sct_cut_count[OF Suc.prems(1) st] Suc.IH[OF inv1 lp] dims by simp
qed simp

text \<open>C9. The channel loop of \<open>main\<close> terminates with bounded work: over \<open>width\<close> cuts
  on an \<open>n \<times> m\<close> target it draws at most \<open>width (m + max 1 cap (n + m))\<close> bits from the
  generator, since each search runs at most \<open>max 1 cap\<close> alternation rounds.\<close>

theorem channel_loop_draws:
  assumes "wf_mat n m T" "sct_new T n m b k = Inr s"
    and "channel_loop (count_draw draw) cap nrm 0 width s g = (logs, s', g')"
  shows "snd g' \<le> snd g + width * (m + max 1 cap * (n + m))"
  using channel_loop_count[OF sct_new_inv[OF assms(1,2)] assms(3)] sct_new_fields[OF assms(2)] by simp

text \<open>C1. The debug log of one channel: the \<open>w\<close>-th line carries the index \<open>w\<close>, the
  logged normalised errors never increase from one cut to the next, none exceeds the
  error of the untouched channel, and the last one is the error of the engine the loop
  leaves behind.\<close>

theorem channel_log_monotone:
  assumes "wf_mat n m T" "sct_new T n m b k = Inr s" "0 \<le> nrm"
    and "channel_loop draw cap nrm 0 width s g = (logs, s', g')"
  shows "map fst logs = [0..<width] \<and> sorted_wrt (\<ge>) (map snd logs) \<and>
         (\<forall>x\<in>set (map snd logs). x \<le> log_err (mat_sqnorm T) nrm) \<and>
         (logs \<noteq> [] \<longrightarrow> snd (last logs) = log_err (squared_norm_l2 s') nrm)"
proof -
  obtain ns where rn: "sct_run draw cap width s g = (ns, s', g')"
    and logs: "logs = zip [0..<width] (map (\<lambda>x. log_err x nrm) ns)"
    and inv: "sct_inv T s" and n0: "squared_norm_l2 s = mat_sqnorm T"
    using channel_loop_run[OF assms(1,2) assms(4)] by auto
  note P = sct_run_props[OF inv rn]
  have len: "length ns = width" using P by simp
  have fst: "map fst logs = [0..<width]" and snd: "map snd logs = map (\<lambda>x. log_err x nrm) ns"
    using len by (simp_all add: logs)
  have srt: "sorted_wrt (\<ge>) ns" and le0: "\<forall>x\<in>set ns. x \<le> mat_sqnorm T"
    using P n0 by simp_all
  have sorted: "sorted_wrt (\<ge>) (map (\<lambda>x. log_err x nrm) ns)"
    unfolding sorted_wrt_map
    by (rule sorted_wrt_mono_rel[OF _ srt]) (simp add: log_err_mono assms(3))
  have bound: "\<forall>x\<in>set (map snd logs). x \<le> log_err (mat_sqnorm T) nrm"
    using le0 assms(3) by (auto simp: snd log_err_mono)
  have "logs \<noteq> [] \<longrightarrow> snd (last logs) = log_err (squared_norm_l2 s') nrm"
  proof
    assume "logs \<noteq> []"
    then have "ns \<noteq> []" using snd by auto
    then have l: "last ns = squared_norm_l2 s'" using P by simp
    have "snd (last logs) = last (map snd logs)" using \<open>logs \<noteq> []\<close> by (simp add: last_map)
    also have "\<dots> = last (map (\<lambda>x. log_err x nrm) ns)" by (simp only: snd)
    also have "\<dots> = log_err (squared_norm_l2 s') nrm" using \<open>ns \<noteq> []\<close> l by (simp add: last_map)
    finally show "snd (last logs) = log_err (squared_norm_l2 s') nrm" .
  qed
  with fst snd sorted bound show ?thesis by simp
qed

lemma channel_run_engine:
  assumes "wf_mat n m T" "sct_new T n m b k = Inr s"
    and "channel_run draw seed0 cap nrm width s = (logs, A)"
  obtains s' ns g' where "sct_run draw cap width s seed0 = (ns, s', g')" "A = expand s'"
    "length logs = width" "sct_inv T s'" "length (cuts s') = width"
    "nrows s' = n" "ncols s' = m" "target_count s' = k"
proof -
  obtain L s' g' where lp: "channel_loop draw cap nrm 0 width s seed0 = (L, s', g')"
    by (cases "channel_loop draw cap nrm 0 width s seed0") auto
  then have L: "L = logs" and A: "A = expand s'"
    using assms(3) by (simp_all add: channel_run_def)
  obtain ns where rn: "sct_run draw cap width s seed0 = (ns, s', g')"
    and logs: "L = zip [0..<width] (map (\<lambda>x. log_err x nrm) ns)" and inv: "sct_inv T s"
    using channel_loop_run[OF assms(1,2) lp] by auto
  note P = sct_run_props[OF inv rn]
  note F = sct_new_fields[OF assms(2)]
  have "length logs = width" using P by (simp add: logs flip: L)
  then show ?thesis
    using that[OF rn A] P F by simp
qed

text \<open>C2. One channel of \<open>main\<close>: for an engine created from a well-formed \<open>n \<times> m\<close>
  target, the loop logs \<open>width\<close> lines and \<open>expand\<close> returns an \<open>n \<times> m\<close> matrix that is
  the re-sum of exactly \<open>width\<close> cuts, each with sign vectors of lengths \<open>n\<close> and \<open>m\<close>
  and entries \<open>\<plusminus>1\<close>, and equals the target minus the residual left behind; with a zero
  budget it is the zero matrix.\<close>

theorem channel_run_reconstruct:
  assumes "wf_mat n m T" "sct_new T n m b k = Inr s"
    and "channel_run draw seed0 cap nrm width s = (logs, A)"
  shows "length logs = width \<and> wf_mat n m A \<and> (width = 0 \<longrightarrow> A = zero_mat n m) \<and>
         (\<exists>ns s' g'. sct_run draw cap width s seed0 = (ns, s', g') \<and> A = expand s' \<and>
               length (cuts s') = width \<and>
               mat_add (residual s') A = T \<and> A = mat_sub T (residual s') \<and>
               (\<forall>c\<in>set (cuts s'). length (cut_u c) = n \<and> length (cut_v c) = m \<and>
                  (\<forall>x\<in>set (cut_u c) \<union> set (cut_v c). x = 1 \<or> x = -1)))"
proof -
  obtain s' ns g' where rn: "sct_run draw cap width s seed0 = (ns, s', g')" and A: "A = expand s'"
    and len: "length logs = width" and inv: "sct_inv T s'" and lc: "length (cuts s') = width"
    and n: "nrows s' = n" and m: "ncols s' = m" and "target_count s' = k"
    by (rule channel_run_engine[OF assms])
  have wfR: "wf_mat n m (residual s')" and ok: "list_all (cut_ok n m) (cuts s')"
    and eq: "mat_add (residual s') A = T"
    using inv by (simp_all add: sct_inv_def n m A)
  have wfA: "wf_mat n m A" using wf_expand[of s'] ok by (simp add: n m A)
  have sub: "A = mat_sub T (residual s')" by (rule conjunct2[OF mat_add_eq_sub[OF wfR wfA eq]])
  have zero: "width = 0 \<longrightarrow> A = zero_mat n m" using lc by (auto simp: A expand_def n m)
  have sgn: "\<forall>c\<in>set (cuts s'). length (cut_u c) = n \<and> length (cut_v c) = m \<and>
          (\<forall>x\<in>set (cut_u c) \<union> set (cut_v c). x = 1 \<or> x = -1)"
    using ok by (auto simp: cut_ok_def list_all_iff is_sign_vec_def is_sign_def)
  show ?thesis
  proof (intro conjI exI[of _ ns] exI[of _ s'] exI[of _ g'])
    show "A = expand s'" by (rule A)
  qed (rule rn len wfA zero lc eq sub sgn)+
qed

text \<open>C3. Refinement of the abstract contract: one channel of \<open>main\<close> returns the sum of a
  greedy sign-cut decomposition of the target with exactly \<open>width\<close> cuts; the target is
  that sum plus the residual the cuts leave, whose squared norm is at most the target's.\<close>

theorem channel_run_refines_greedy:
  assumes "wf_mat n m T" "sct_new T n m b k = Inr s"
    and "channel_run draw seed0 cap nrm width s = (logs, A)"
  shows "\<exists>cs ns s' g'. sct_run draw cap width s seed0 = (ns, s', g') \<and> cuts s' = cs \<and>
              length cs = width \<and> greedy_seq n m T cs \<and> A = cut_sum n m cs \<and>
              mat_add (foldl apply_cut T cs) A = T \<and> mat_sqnorm (foldl apply_cut T cs) \<le> mat_sqnorm T"
proof -
  obtain s' ns g' where rn: "sct_run draw cap width s seed0 = (ns, s', g')" and A: "A = expand s'"
    and inv: "sct_inv T s'" and n: "nrows s' = n" and m: "ncols s' = m"
    using channel_run_engine[OF assms] by metis
  have inv0: "sct_inv T s" using assms(1,2) by (rule sct_new_inv)
  note F = sct_new_fields[OF assms(2)]
  obtain cs where cs: "cuts s' = cs" "length cs = width" "greedy_seq n m T cs"
      "residual s' = foldl apply_cut T cs"
    using sct_run_greedy[OF inv0 rn] F by auto
  have sum: "A = cut_sum n m cs" using A cs(1) n m by (simp add: expand_def cut_sum_def)
  have "mat_add (residual s') (expand s') = T" using inv by (simp add: sct_inv_def)
  moreover have "squared_norm_l2 s' \<le> squared_norm_l2 s" using inv0 rn by (rule sct_run_norm_le)
  ultimately show ?thesis
    using cs sum A F rn by (intro exI[of _ cs] exI[of _ ns] exI[of _ s'] exI[of _ g'])
      (simp add: squared_norm_l2_def)
qed

text \<open>C6. Exact recovery (spec scenario B, generalised): on a target \<open>c a b\<^sup>T\<close> with sign
  vectors \<open>a\<close>, \<open>b\<close>, \<open>c \<noteq> 0\<close> and an odd number of columns \<open>m\<close>, one cut of \<open>main\<close>'s
  loop reconstructs the target exactly and logs the error 0, for every generator, round
  cap and tile size.\<close>

theorem channel_run_rank_one:
  assumes a: "is_sign_vec a" "length a = n" "0 < n" and b: "is_sign_vec b" "length b = m" "odd m"
    and c: "c \<noteq> 0" and new: "sct_new (outer c a b) n m t k = Inr s"
  shows "channel_run draw gen cap nrm 1 s = ([(0, 0)], outer c a b)"
proof -
  obtain ct x s' g' where st: "sct_cut draw cap s gen = ((ct, x), s', g')"
    by (cases "sct_cut draw cap s gen") auto
  have r: "residual s' = zero_mat n m" "expand s' = outer c a b"
    using sct_cut_rank_one[OF a b c new st] by simp_all
  have "squared_norm_l2 s' = 0" using r(1) by (simp add: squared_norm_l2_def mat_sqnorm_zero_mat)
  then show ?thesis using st r(2) by (simp add: channel_run_def channel_loop_1)
qed

section \<open>Independence of the block size\<close>

lemma channel_run_tile_size:
  assumes "sct_inv T s" "0 < b'"
  shows "channel_run draw seed0 cap nrm width (s\<lparr>tile_size := b'\<rparr>) =
         channel_run draw seed0 cap nrm width s"
proof -
  obtain ns s' g' where rn: "sct_run draw cap width s seed0 = (ns, s', g')"
    by (cases "sct_run draw cap width s seed0") auto
  have rn': "sct_run draw cap width (s\<lparr>tile_size := b'\<rparr>) seed0 = (ns, s'\<lparr>tile_size := b'\<rparr>, g')"
    using assms rn by (rule sct_run_tile_size)
  have "expand (s'\<lparr>tile_size := b'\<rparr>) = expand s'" by (simp add: expand_def)
  then show ?thesis
    using channel_loop_sct_run[OF assms(1), of draw cap nrm 0 width seed0]
      channel_loop_sct_run[OF sct_inv_tile_size[OF assms], of draw cap nrm 0 width seed0] rn rn'
    by (simp add: channel_run_def)
qed

lemma channel_mat_wf: "wf_mat (unat (img_width img)) (unat (img_height img)) (channel_mat img c)"
  by (simp add: channel_mat_def wf_mat_def list_all_iff)

lemma channels_tile_size:
  assumes "\<forall>M\<in>set Ms. wf_mat n m M" "0 < n" "0 < m" "0 < b" "0 < b'"
  shows "find isl (map (\<lambda>M. sct_new M n m b k) Ms) = None \<and>
         find isl (map (\<lambda>M. sct_new M n m b' k) Ms) = None \<and>
         map (\<lambda>s. snd (channel_run draw seed0 cap nrm w (projr s))) (map (\<lambda>M. sct_new M n m b' k) Ms) =
         map (\<lambda>s. snd (channel_run draw seed0 cap nrm w (projr s))) (map (\<lambda>M. sct_new M n m b k) Ms)"
proof -
  have run: "channel_run draw seed0 cap nrm w (projr (sct_new M n m b' k)) =
             channel_run draw seed0 cap nrm w (projr (sct_new M n m b k))" if "M \<in> set Ms" for M
  proof -
    obtain s where sn: "sct_new M n m b k = Inr s"
      using assms(2-4) by (simp add: sct_new_def)
    have inv: "sct_inv M s" using assms(1) that sn by (blast intro: sct_new_inv)
    show ?thesis
      using sct_new_tile_size[OF sn assms(5)] channel_run_tile_size[OF inv assms(5)] sn by simp
  qed
  have "find isl (map (\<lambda>M. sct_new M n m c k) Ms) = None" if "0 < c" for c
    using assms(2,3) that by (simp add: find_None_iff sct_new_def)
  then show ?thesis using run assms(4,5) by simp
qed

lemma load_channels_wf:
  "\<forall>M\<in>set (load_channels img). wf_mat (unat (img_width img)) (unat (img_height img)) M"
  by (simp add: load_channels_def channel_mat_wf)

text \<open>C4. The block size only tiles the products: for any two non-zero block sizes,
  \<open>main\<close> has the same outcome (the same image, or the same failure) on the same
  arguments, input and output.\<close>

theorem angus_main_block_size:
  assumes "block_size a \<noteq> 0" "b' \<noteq> 0"
  shows "angus_main draw seed0 cap (Inr (a\<lparr>block_size := b'\<rparr>)) open_img save =
         angus_main draw seed0 cap (Inr a) open_img save"
proof (cases "open_img (input a)")
  case (Inl e)
  then show ?thesis by (simp add: angus_main_def)
next
  case (Inr img)
  let ?n = "unat (ucast (img_width img) :: usize)" and ?m = "unat (ucast (img_height img) :: usize)"
  have b: "0 < unat (block_size a)" "0 < unat b'" using assms by (simp_all add: unat_gt_0)
  show ?thesis
  proof (cases "?n = 0 \<or> ?m = 0")
    case True
    then have "\<And>M. sct_new M ?n ?m (unat b') k = sct_new M ?n ?m (unat (block_size a)) k" for k
      by (rule sct_new_empty_tile_size)
    then show ?thesis using Inr
      by (simp add: angus_main_def Let_def cong: option.case_cong sum.case_cong)
  next
    case False
    have wf: "\<forall>M\<in>set (load_channels img). wf_mat ?n ?m M"
      using load_channels_wf[of img] by (simp add: unat_ucast_32)
    let ?k = "unat (budget_width (compression_rate a) (ucast (img_width img)) (ucast (img_height img)))"
    let ?nrm = "normalization (ucast (img_width img)) (ucast (img_height img))"
    note C = channels_tile_size[OF wf _ _ b(1) b(2), of ?k draw seed0 cap ?nrm ?k]
    show ?thesis using Inr False C
      by (simp add: angus_main_def Let_def cong: option.case_cong sum.case_cong map_cong)
  qed
qed

section \<open>The whole program\<close>

lemma output_image_ok:
  "output_image W H mats =
   Inr \<lparr>img_width = W, img_height = H,
        pixel = (\<lambda>i j. (projr (to_u8 (Fin (mats ! 0 ! i ! j))), projr (to_u8 (Fin (mats ! 1 ! i ! j))),
                          projr (to_u8 (Fin (mats ! 2 ! i ! j)))))\<rparr>"
  by (simp add: output_image_def Let_def to_u8_Fin list_all_iff)

lemma ucast_32_eq_0 [simp]: "((ucast (W :: 32 word) :: usize) = 0) = (W = 0)"
  by (metis unat_ucast_32 unat_eq_zero)

text \<open>C7. The failure paths of \<open>main\<close>: an argument error or an image that cannot be
  opened is returned as it is, before any computation; an image with no column or no row,
  or a block size of 0, makes \<open>SctHelper::new\<close> fail, which is a panic at the call site
  (zero rows is reported first, then zero columns, then the tile size).\<close>

theorem angus_main_errors:
  "angus_main draw gen cap (Inl e) open_img save = Inl e \<and>
   (open_img (input a) = Inl e \<longrightarrow> angus_main draw gen cap (Inr a) open_img save = Inl e) \<and>
   (open_img (input a) = Inr img \<longrightarrow> img_width img = 0 \<longrightarrow>
      angus_main draw gen cap (Inr a) open_img save = Inl (PanicConfig ZeroRows)) \<and>
   (open_img (input a) = Inr img \<longrightarrow> img_width img \<noteq> 0 \<longrightarrow> img_height img = 0 \<longrightarrow>
      angus_main draw gen cap (Inr a) open_img save = Inl (PanicConfig ZeroCols)) \<and>
   (open_img (input a) = Inr img \<longrightarrow> img_width img \<noteq> 0 \<longrightarrow> img_height img \<noteq> 0 \<longrightarrow>
      block_size a = 0 \<longrightarrow> angus_main draw gen cap (Inr a) open_img save = Inl (PanicConfig ZeroTileSize))"
  by (auto simp: angus_main_def Let_def load_channels_def sct_new_def unat_ucast_32 unat_eq_zero)

lemma angus_main_ok:
  assumes "open_img (input a) = Inr img" "img_width img \<noteq> 0" "img_height img \<noteq> 0"
    "block_size a \<noteq> 0"
  shows "angus_main draw gen cap (Inr a) open_img save =
    (let W = img_width img; H = img_height img;
         width = unat (budget_width (compression_rate a) (ucast W) (ucast H));
         nrm = normalization (ucast W) (ucast H);
         mats = map (\<lambda>M. snd (channel_run draw gen cap nrm width
                       (projr (sct_new M (unat W) (unat H) (unat (block_size a)) width))))
                    (load_channels img);
         out = \<lparr>img_width = W, img_height = H,
                pixel = (\<lambda>i j. (projr (to_u8 (Fin (mats ! 0 ! i ! j))),
                                  projr (to_u8 (Fin (mats ! 1 ! i ! j))),
                                  projr (to_u8 (Fin (mats ! 2 ! i ! j)))))\<rparr>
     in case save (output_arg a) out of Inl e \<Rightarrow> Inl e | Inr _ \<Rightarrow> Inr out)"
proof -
  have "find isl (map (\<lambda>M. sct_new M (unat (img_width img)) (unat (img_height img))
          (unat (block_size a)) k) (load_channels img)) = None" for k
    using assms(2-4) by (simp add: find_None_iff sct_new_def unat_eq_zero)
  then show ?thesis
    using assms(1) by (simp add: angus_main_def Let_def unat_ucast_32 output_image_ok o_def
        cong: option.case_cong sum.case_cong)
qed

lemma unat_projr_to_u8: "unat (projr (to_u8 (Fin r))) = nat \<lfloor>f32_clamp 0 255 r + 1 / 2\<rfloor>"
  using unat_to_u8_Fin[of r] by (simp add: to_u8_Fin)

lemma chan_pixel:
  assumes "c < 3" shows "chan c (f 0, f 1, f 2) = f c"
proof -
  have "c = 0 \<or> c = 1 \<or> c = 2" using assms by arith
  then show ?thesis by (auto simp: chan_def)
qed

lemma load_channels_nth:
  assumes "c < 3" shows "map f (load_channels img) ! c = f (channel_mat img c)"
proof -
  have "c = 0 \<or> c = 1 \<or> c = 2" using assms by arith
  then show ?thesis by (auto simp: load_channels_def)
qed

lemma grey_channels:
  assumes "\<forall>x y. is_grey (pixel img x y)"
  shows "load_channels img = replicate 3 (channel_mat img 0)"
proof -
  have "chan c (pixel img x y) = fst (pixel img x y)" for c x y
  proof -
    have "is_grey (pixel img x y)" using assms by blast
    then show ?thesis by (cases "pixel img x y") (simp add: chan_def is_grey_def)
  qed
  then have "channel_mat img c = channel_mat img 0" for c
    by (simp add: channel_mat_def)
  then show ?thesis by (simp add: load_channels_def numeral_3_eq_3)
qed

lemma angus_main_Inr:
  assumes "open_img (input a) = Inr img" "img_width img \<noteq> 0" "img_height img \<noteq> 0"
    "block_size a \<noteq> 0" and "angus_main draw gen cap (Inr a) open_img save = Inr out"
  defines "k \<equiv> unat (budget_width (compression_rate a) (ucast (img_width img)) (ucast (img_height img)))"
  defines "f \<equiv> \<lambda>M. snd (channel_run draw gen cap (normalization (ucast (img_width img)) (ucast (img_height img)))
                    k (projr (sct_new M (unat (img_width img)) (unat (img_height img))
                                  (unat (block_size a)) k)))"
  shows "save (output_arg a) out = Inr () \<and> img_width out = img_width img \<and>
         img_height out = img_height img \<and>
         pixel out = (\<lambda>i j. (projr (to_u8 (Fin (map f (load_channels img) ! 0 ! i ! j))),
                             projr (to_u8 (Fin (map f (load_channels img) ! 1 ! i ! j))),
                             projr (to_u8 (Fin (map f (load_channels img) ! 2 ! i ! j)))))"
proof -
  let ?mats = "map f (load_channels img)"
  let ?px = "\<lambda>c i j. projr (to_u8 (Fin (?mats ! c ! i ! j)))"
  let ?out = "\<lparr>img_width = img_width img, img_height = img_height img,
               pixel = (\<lambda>i j. (?px 0 i j, ?px 1 i j, ?px 2 i j))\<rparr>"
  have main: "angus_main draw gen cap (Inr a) open_img save =
              (case save (output_arg a) ?out of Inl e \<Rightarrow> Inl e | Inr _ \<Rightarrow> Inr ?out)"
    using angus_main_ok[where open_img = open_img and a = a and img = img and draw = draw and
        gen = gen and cap = cap and save = save, OF assms(1-4)]
    unfolding k_def f_def by (simp only: Let_def)
  have o: "out = ?out" and sv: "save (output_arg a) ?out = Inr ()"
    using assms(5) main by (auto split: sum.splits)
  show ?thesis unfolding o using sv by (simp only: rgb_image.simps simp_thms)
qed

text \<open>C5. When \<open>main\<close> succeeds on a non-empty image with a non-zero block size, it has
  saved the image it returns, that image has the input's dimensions, and each channel
  byte of each pixel is \<open>to_u8\<close> of the corresponding entry of that channel's
  reconstruction after \<open>width\<close> cuts: \<open>\<lfloor>clamp(x, 0, 255) + 1/2\<rfloor>\<close>.\<close>

theorem angus_main_output:
  assumes "open_img (input a) = Inr img" "img_width img \<noteq> 0" "img_height img \<noteq> 0"
    "block_size a \<noteq> 0"
    and "angus_main draw gen cap (Inr a) open_img save = Inr out"
  shows "save (output_arg a) out = Inr () \<and> img_width out = img_width img \<and>
         img_height out = img_height img \<and>
         (\<forall>c<3. \<exists>s. sct_new (channel_mat img c) (unat (img_width img)) (unat (img_height img))
                        (unat (block_size a))
                        (unat (budget_width (compression_rate a) (ucast (img_width img))
                                 (ucast (img_height img)))) = Inr s \<and>
            (\<forall>x y. unat (chan c (pixel out x y)) =
               nat \<lfloor>f32_clamp 0 255
                    (snd (channel_run draw gen cap
                            (normalization (ucast (img_width img)) (ucast (img_height img)))
                            (unat (budget_width (compression_rate a) (ucast (img_width img))
                                     (ucast (img_height img)))) s) ! x ! y) + 1 / 2\<rfloor>))"
proof -
  let ?W = "img_width img" and ?H = "img_height img"
  let ?k = "unat (budget_width (compression_rate a) (ucast ?W) (ucast ?H))"
  let ?nrm = "normalization (ucast ?W) (ucast ?H)"
  let ?sct = "\<lambda>M. projr (sct_new M (unat ?W) (unat ?H) (unat (block_size a)) ?k)"
  let ?mats = "map (\<lambda>M. snd (channel_run draw gen cap ?nrm ?k (?sct M))) (load_channels img)"
  let ?px = "\<lambda>c i j. projr (to_u8 (Fin (?mats ! c ! i ! j)))"
  have R: "save (output_arg a) out = Inr () \<and> img_width out = ?W \<and> img_height out = ?H \<and>
           pixel out = (\<lambda>i j. (?px 0 i j, ?px 1 i j, ?px 2 i j))"
    by (rule angus_main_Inr[OF assms])
  have new: "sct_new M (unat ?W) (unat ?H) (unat (block_size a)) ?k = Inr (?sct M)" for M
    using assms(2-4) by (simp add: sct_new_def unat_eq_zero)
  have "\<exists>s. sct_new (channel_mat img c) (unat ?W) (unat ?H) (unat (block_size a)) ?k = Inr s \<and>
          (\<forall>x y. unat (chan c (pixel out x y)) =
             nat \<lfloor>f32_clamp 0 255 (snd (channel_run draw gen cap ?nrm ?k s) ! x ! y) + 1 / 2\<rfloor>)"
    if c: "c < 3" for c
  proof (intro exI conjI allI)
    show "sct_new (channel_mat img c) (unat ?W) (unat ?H) (unat (block_size a)) ?k =
          Inr (?sct (channel_mat img c))" by (rule new)
    have "?mats ! c = snd (channel_run draw gen cap ?nrm ?k (?sct (channel_mat img c)))"
      using c by (rule load_channels_nth)
    then show "unat (chan c (pixel out x y)) =
      nat \<lfloor>f32_clamp 0 255 (snd (channel_run draw gen cap ?nrm ?k (?sct (channel_mat img c))) ! x ! y)
        + 1 / 2\<rfloor>" for x y
      using chan_pixel[OF c, of "\<lambda>c. ?px c x y"] R by (simp add: unat_projr_to_u8)
  qed
  then show ?thesis using R by simp
qed

text \<open>C15. Colour is preserved on grey images: the three channels of a grey image are
  the same matrix, and each is compressed with a generator seeded with 0, so when
  \<open>main\<close> succeeds on a grey image the image it returns is grey.\<close>

theorem angus_main_grey:
  assumes "open_img (input a) = Inr img" "img_width img \<noteq> 0" "img_height img \<noteq> 0"
    "block_size a \<noteq> 0" and grey: "\<forall>x y. is_grey (pixel img x y)"
    and "angus_main draw gen cap (Inr a) open_img save = Inr out"
  shows "\<forall>x y. is_grey (pixel out x y)"
proof -
  obtain f where px: "pixel out = (\<lambda>i j. (projr (to_u8 (Fin (map f (load_channels img) ! 0 ! i ! j))),
                             projr (to_u8 (Fin (map f (load_channels img) ! 1 ! i ! j))),
                             projr (to_u8 (Fin (map f (load_channels img) ! 2 ! i ! j)))))"
    using angus_main_Inr[OF assms(1-4) assms(6)] by blast
  have "map f (load_channels img) = [f (channel_mat img 0), f (channel_mat img 0), f (channel_mat img 0)]"
    using grey_channels[OF grey] by (simp add: numeral_3_eq_3)
  then show ?thesis by (simp add: px is_grey_def)
qed

lemma channel_run_zero_budget:
  "0 < n \<Longrightarrow> 0 < m \<Longrightarrow> 0 < b \<Longrightarrow>
   snd (channel_run draw seed0 cap nrm 0 (projr (sct_new T n m b 0))) = zero_mat n m"
  by (simp add: channel_run_def sct_new_def expand_def)

text \<open>C8. A zero budget gives a black image: with a NaN, minus infinity, zero or negative
  compression rate (none of which is rejected), \<open>main\<close> runs no cut and writes an image of
  the input's dimensions whose every pixel is \<open>(0, 0, 0)\<close>.\<close>

theorem angus_main_zero_budget:
  assumes "open_img (input a) = Inr img" "img_width img \<noteq> 0" "img_height img \<noteq> 0"
    "block_size a \<noteq> 0"
    and "compression_rate a = NaN \<or> compression_rate a = NegInf \<or>
         (\<exists>c \<le> 0. compression_rate a = Fin c)"
  shows "\<exists>out. angus_main draw gen cap (Inr a) open_img save =
                (case save (output_arg a) out of Inl e \<Rightarrow> Inl e | Inr _ \<Rightarrow> Inr out) \<and>
              img_width out = img_width img \<and> img_height out = img_height img \<and>
              (\<forall>x < unat (img_width img). \<forall>y < unat (img_height img). pixel out x y = (0, 0, 0))"
proof -
  let ?W = "img_width img" and ?H = "img_height img"
  have k: "unat (budget_width (compression_rate a) (ucast ?W) (ucast ?H)) = 0"
    using budget_width_zero[OF assms(5)] by simp
  have pos: "0 < unat ?W" "0 < unat ?H" "0 < unat (block_size a)"
    using assms(2-4) by (simp_all add: unat_gt_0)
  let ?mats = "map (\<lambda>M. snd (channel_run draw gen cap
                 (normalization (ucast ?W) (ucast ?H)) 0
                 (projr (sct_new M (unat ?W) (unat ?H) (unat (block_size a)) 0)))) (load_channels img)"
  have z: "?mats ! c ! x ! y = 0" if "c < 3" "x < unat ?W" "y < unat ?H" for c x y
  proof -
    have "?mats ! c = snd (channel_run draw gen cap (normalization (ucast ?W) (ucast ?H)) 0
            (projr (sct_new (channel_mat img c) (unat ?W) (unat ?H) (unat (block_size a)) 0)))"
      by (rule load_channels_nth[OF that(1)])
    also have "\<dots> = zero_mat (unat ?W) (unat ?H)"
      by (rule channel_run_zero_budget[OF pos])
    finally show ?thesis using that(2,3) by (simp add: zero_mat_def zero_vec_def)
  qed
  let ?px = "\<lambda>c i j. projr (to_u8 (Fin (?mats ! c ! i ! j)))"
  let ?out = "\<lparr>img_width = ?W, img_height = ?H, pixel = (\<lambda>i j. (?px 0 i j, ?px 1 i j, ?px 2 i j))\<rparr>"
  have main: "angus_main draw gen cap (Inr a) open_img save =
              (case save (output_arg a) ?out of Inl e \<Rightarrow> Inl e | Inr _ \<Rightarrow> Inr ?out)"
    using angus_main_ok[where open_img = open_img and a = a and img = img and draw = draw and
        gen = gen and cap = cap and save = save, OF assms(1-4)] k by (simp only: Let_def)
  have "\<forall>x < unat ?W. \<forall>y < unat ?H. pixel ?out x y = (0, 0, 0)"
    using z by (simp add: to_u8_Fin f32_clamp_def)
  with main show ?thesis by (intro exI[of _ ?out]) simp
qed

section \<open>Examples\<close>

lemma ex_channel_loop:
  "channel_loop lcg_draw 1 40 0 2 ex_state 0 =
     ([(0, log_err 16 40), (1, log_err (16 / 3) 40)], ex_state2, 51790)"
  by (simp only: channel_loop_numeral pred_numeral_simps BitM.simps numeral_One channel_loop_1
      ex_step ex_step2 Let_def prod.case) (simp add: squared_norm_l2_def mat_sqnorm_def)

lemma ex_channel_run2:
  "channel_run lcg_draw 0 1 40 2 ex_state =
     ([(0, log_err 16 40), (1, log_err (16 / 3) 40)], expand ex_state2)"
  by (simp only: channel_run_def ex_channel_loop Let_def prod.case)

lemma ex_channel_run:
  "channel_run lcg_draw 0 1 nrm 1 ex_state = ([(0, log_err 16 nrm)], expand ex_state1)"
  by (simp only: channel_run_def channel_loop_1 ex_step Let_def prod.case)
    (simp add: squared_norm_l2_def mat_sqnorm_def)

lemma ex_expand1: "expand ex_state1 = [[2, 2], [2, 2], [2, 2]]"
  by (simp add: expand_def zero_mat_def cut_mat_def outer_def mat_add_def smul_def zero_vec_def
      vadd_def replicate_numeral)

lemma ex_main_ok:
  "\<exists>out. angus_main lcg_draw 0 1 (Inr ex_args) (\<lambda>_. Inr ex_img) (\<lambda>_ _. Inr ()) = Inr out"
  using angus_main_ok[where open_img = "\<lambda>_. Inr ex_img" and a = ex_args and img = ex_img and
      draw = lcg_draw and gen = 0 and cap = 1 and save = "\<lambda>_ _. Inr ()"]
  by (simp add: Let_def)

theorem channel_log_monotone_witness:
  "wf_mat 3 2 ex_target \<and> sct_new ex_target 3 2 2 1 = Inr ex_state \<and>
   channel_loop lcg_draw 1 40 0 2 ex_state 0 =
     ([(0, log_err 16 40), (1, log_err (16 / 3) 40)], ex_state2, 51790) \<and>
   map fst [(0::nat, log_err 16 40), (1, log_err (16 / 3) 40)] = [0..<2] \<and>
   sorted_wrt (\<ge>) [log_err 16 40, log_err (16 / 3) 40 :: real] \<and>
   list_all (\<lambda>x. x \<le> log_err (mat_sqnorm ex_target) 40) [log_err 16 40, log_err (16 / 3) 40] \<and>
   log_err (16 / 3) 40 = log_err (squared_norm_l2 ex_state2) 40"
  using channel_log_monotone[OF ex_wf ex_new _ ex_channel_loop] ex_wf ex_new ex_channel_loop
  by simp

theorem channel_run_reconstruct_witness:
  "channel_run lcg_draw 0 1 40 2 ex_state =
     ([(0, log_err 16 40), (1, log_err (16 / 3) 40)], expand ex_state2) \<and>
   wf_mat 3 2 (expand ex_state2) \<and> expand ex_state2 = [[10 / 3, 2 / 3], [2 / 3, 10 / 3], [2 / 3, 10 / 3]]"
proof -
  note run = ex_channel_run2
  have "expand ex_state2 = [[10 / 3, 2 / 3], [2 / 3, 10 / 3], [2 / 3, 10 / 3]]"
    by (simp add: expand_def zero_mat_def cut_mat_def outer_def mat_add_def smul_def zero_vec_def
        vadd_def replicate_numeral)
  then show ?thesis
    using channel_run_reconstruct[OF ex_wf ex_new run] run by simp
qed

theorem angus_main_block_size_witness:
  "angus_main lcg_draw 0 1 (Inr (ex_args\<lparr>block_size := 3\<rparr>)) (\<lambda>_. Inr ex_img) (\<lambda>_ _. Inr ()) =
   angus_main lcg_draw 0 1 (Inr ex_args) (\<lambda>_. Inr ex_img) (\<lambda>_ _. Inr ())"
  using angus_main_block_size[of ex_args 3] by simp

theorem angus_main_output_witness:
  "\<exists>out. angus_main lcg_draw 0 1 (Inr ex_args) (\<lambda>_. Inr ex_img) (\<lambda>_ _. Inr ()) = Inr out \<and>
         img_width out = 3 \<and> img_height out = 2 \<and>
         unat (chan 0 (pixel out 0 0)) = 2 \<and> unat (chan 2 (pixel out 2 1)) = 2"
proof -
  obtain out where m: "angus_main lcg_draw 0 1 (Inr ex_args) (\<lambda>_. Inr ex_img) (\<lambda>_ _. Inr ()) = Inr out"
    using ex_main_ok by blast
  have p: "(\<lambda>_. Inr ex_img :: failure + rgb_image) (input ex_args) = Inr ex_img"
    "img_width ex_img \<noteq> 0" "img_height ex_img \<noteq> 0" "block_size ex_args \<noteq> 0"
    by simp_all
  note O = angus_main_output[OF p m]
  have dims: "unat (img_width ex_img) = 3" "unat (img_height ex_img) = 2" "unat (block_size ex_args) = 2"
    by simp_all
  have px: "unat (chan c (pixel out x y)) =
            nat \<lfloor>f32_clamp 0 255 (expand ex_state1 ! x ! y) + 1 / 2\<rfloor>" if c: "c < 3" for c x y
  proof -
    obtain s where sn: "sct_new (channel_mat ex_img c) (unat (img_width ex_img)) (unat (img_height ex_img))
        (unat (block_size ex_args)) (unat (budget_width (compression_rate ex_args)
          (ucast (img_width ex_img)) (ucast (img_height ex_img)))) = Inr s"
      and q: "\<forall>x y. unat (chan c (pixel out x y)) =
        nat \<lfloor>f32_clamp 0 255 (snd (channel_run lcg_draw 0 1
          (normalization (ucast (img_width ex_img)) (ucast (img_height ex_img)))
          (unat (budget_width (compression_rate ex_args) (ucast (img_width ex_img))
                   (ucast (img_height ex_img)))) s) ! x ! y) + 1 / 2\<rfloor>"
      using O c by blast
    have "s = ex_state"
      using sn ex_new unfolding dims ex_channel_mat[OF c] by (simp add: ex_budget')
    then show ?thesis
      using q by (simp add: ex_budget' ex_channel_run[simplified])
  qed
  show ?thesis
    using m O px[of 0 0 0] px[of 2 2 1] by (simp add: ex_expand1[simplified] f32_clamp_def)
qed

theorem angus_main_errors_witness:
  "angus_main lcg_draw 0 1 (Inr ex_args) (\<lambda>_. Inl ImageError) (\<lambda>_ _. Inr ()) = Inl ImageError \<and>
   angus_main lcg_draw 0 1 (Inr ex_args) (\<lambda>_. Inr (ex_img\<lparr>img_width := 0\<rparr>)) (\<lambda>_ _. Inr ()) =
     Inl (PanicConfig ZeroRows) \<and>
   angus_main lcg_draw 0 1 (Inr (ex_args\<lparr>block_size := 0\<rparr>)) (\<lambda>_. Inr ex_img) (\<lambda>_ _. Inr ()) =
     Inl (PanicConfig ZeroTileSize)"
proof -
  have "angus_main lcg_draw 0 1 (Inr ex_args) (\<lambda>_. Inl ImageError) (\<lambda>_ _. Inr ()) = Inl ImageError"
    using angus_main_errors[where draw = lcg_draw and gen = 0 and cap = 1 and e = ImageError and
        open_img = "\<lambda>_. Inl ImageError" and save = "\<lambda>_ _. Inr ()" and a = ex_args] by simp
  moreover have "angus_main lcg_draw 0 1 (Inr ex_args) (\<lambda>_. Inr (ex_img\<lparr>img_width := 0\<rparr>)) (\<lambda>_ _. Inr ()) =
     Inl (PanicConfig ZeroRows)"
    using angus_main_errors[where draw = lcg_draw and gen = 0 and cap = 1 and
        open_img = "\<lambda>_. Inr (ex_img\<lparr>img_width := 0\<rparr>)" and save = "\<lambda>_ _. Inr ()" and a = ex_args and
        img = "ex_img\<lparr>img_width := 0\<rparr>"] by simp
  moreover have "angus_main lcg_draw 0 1 (Inr (ex_args\<lparr>block_size := 0\<rparr>)) (\<lambda>_. Inr ex_img)
      (\<lambda>_ _. Inr ()) = Inl (PanicConfig ZeroTileSize)"
    using angus_main_errors[where draw = lcg_draw and gen = 0 and cap = 1 and
        open_img = "\<lambda>_. Inr ex_img" and save = "\<lambda>_ _. Inr ()" and a = "ex_args\<lparr>block_size := 0\<rparr>" and
        img = ex_img] by simp
  ultimately show ?thesis by blast
qed

theorem angus_main_zero_budget_witness:
  "\<exists>out. angus_main lcg_draw 0 1 (Inr (ex_args\<lparr>compression_rate := Fin (- 1)\<rparr>)) (\<lambda>_. Inr ex_img)
           (\<lambda>_ _. Inr ()) = Inr out \<and>
         img_width out = 3 \<and> img_height out = 2 \<and> pixel out 0 0 = (0, 0, 0) \<and> pixel out 2 1 = (0, 0, 0)"
proof -
  have p: "(\<lambda>_. Inr ex_img :: failure + rgb_image) (input (ex_args\<lparr>compression_rate := Fin (- 1)\<rparr>)) =
      Inr ex_img"
    "img_width ex_img \<noteq> 0" "img_height ex_img \<noteq> 0"
    "block_size (ex_args\<lparr>compression_rate := Fin (- 1)\<rparr>) \<noteq> 0"
    "compression_rate (ex_args\<lparr>compression_rate := Fin (- 1)\<rparr>) = NaN \<or>
     compression_rate (ex_args\<lparr>compression_rate := Fin (- 1)\<rparr>) = NegInf \<or>
     (\<exists>c \<le> 0. compression_rate (ex_args\<lparr>compression_rate := Fin (- 1)\<rparr>) = Fin c)"
    by simp_all
  show ?thesis
    using angus_main_zero_budget[OF p, where draw = lcg_draw and gen = 0 and cap = 1 and
        save = "\<lambda>_ _. Inr ()"] by auto
qed

theorem channel_run_refines_greedy_witness:
  "greedy_seq 3 2 ex_target [ex_cut, ex_cut2] \<and>
   (\<exists>cs. length cs = 2 \<and> greedy_seq 3 2 ex_target cs \<and> expand ex_state2 = cut_sum 3 2 cs \<and>
        mat_add (foldl apply_cut ex_target cs) (expand ex_state2) = ex_target \<and>
        mat_sqnorm (foldl apply_cut ex_target cs) \<le> mat_sqnorm ex_target)"
proof -
  have "greedy_seq 3 2 ex_target [ex_cut, ex_cut2]"
    by (simp add: greedy_cut_def cut_ok_def apply_cut_def is_sign_vec_def is_sign_def dot_def
        mat_vec_def rank1_update_def row_update_def)
  then show ?thesis
    using channel_run_refines_greedy[OF ex_wf ex_new ex_channel_run2] by blast
qed

theorem channel_loop_draws_witness:
  "snd (snd (snd (channel_loop (count_draw lcg_draw) 1 40 0 2 ex_state (0, 0)))) \<le> 14"
  using channel_loop_draws[OF ex_wf ex_new, where draw = lcg_draw and cap = 1 and nrm = 40 and
      width = 2 and g = "(0, 0)" and
      logs = "fst (channel_loop (count_draw lcg_draw) 1 40 0 2 ex_state (0, 0))" and
      s' = "fst (snd (channel_loop (count_draw lcg_draw) 1 40 0 2 ex_state (0, 0)))" and
      g' = "snd (snd (channel_loop (count_draw lcg_draw) 1 40 0 2 ex_state (0, 0)))"]
  by simp

theorem channel_run_rank_one_witness:
  "channel_run lcg_draw 0 1 40 1
     \<lparr>residual = [[1, -1, 1], [-1, 1, -1]], cuts = [], nrows = 2, ncols = 3, tile_size = 2,
      target_count = 1\<rparr> = ([(0, 0)], [[1, -1, 1], [-1, 1, -1]])"
proof -
  have o: "outer 1 [1, -1] [1, -1, 1] = [[1, -1, 1], [-1, 1, -1]]" by (simp add: outer_def smul_def)
  have "is_sign_vec [1, -1]" "is_sign_vec [1, -1, 1]" by (simp_all add: is_sign_vec_def is_sign_def)
  moreover have "sct_new (outer 1 [1, -1] [1, -1, 1]) 2 3 2 1 =
      Inr \<lparr>residual = [[1, -1, 1], [-1, 1, -1]], cuts = [], nrows = 2, ncols = 3, tile_size = 2,
           target_count = 1\<rparr>"
    by (simp add: o sct_new_def)
  ultimately show ?thesis
    using channel_run_rank_one[of "[1, -1]" 2 "[1, -1, 1]" 3 1, where draw = lcg_draw and gen = 0 and
        cap = 1 and nrm = 40] o by simp
qed

theorem angus_main_grey_witness:
  "\<exists>out. angus_main lcg_draw 0 1 (Inr ex_args) (\<lambda>_. Inr ex_img) (\<lambda>_ _. Inr ()) = Inr out \<and>
         (\<forall>x y. is_grey (pixel out x y))"
proof -
  obtain out where m: "angus_main lcg_draw 0 1 (Inr ex_args) (\<lambda>_. Inr ex_img) (\<lambda>_ _. Inr ()) = Inr out"
    using ex_main_ok by blast
  have p: "(\<lambda>_. Inr ex_img :: failure + rgb_image) (input ex_args) = Inr ex_img"
    "img_width ex_img \<noteq> 0" "img_height ex_img \<noteq> 0" "block_size ex_args \<noteq> 0"
    by simp_all
  have g: "\<forall>x y. is_grey (pixel ex_img x y)"
    by (simp add: is_grey_def Let_def)
  show ?thesis using m angus_main_grey[OF p g m] by blast
qed

end
