(* ===== verification/Spec2Isabelle.thy ===== *)
theory Spec2Isabelle
  imports Program
begin

text \<open>
  \<^bold>\<open>A verification development of angus\<close>, the signed-cut image approximator of the
  repository (single source file \<open>src/src/main.rs\<close>, which calls the engine
  \<open>SctHelper\<close> of the external crate \<open>cuts_v2\<close>).

  \<^bold>\<open>The program and its parts.\<close>  \<open>main\<close> parses its arguments, decodes an RGB image of
  width \<open>W\<close> and height \<open>H\<close> into three \<open>W \<times> H\<close> channel matrices, derives a cut budget
  \<open>width = (rate * (W H 8) as f64 / (W + H + 32) as f64) as usize\<close>, creates one engine per
  channel with the block size as tile size and \<open>width\<close> as target count, runs \<open>width\<close>
  cuts per channel with a generator seeded with 0 (logging the normalised error after
  each cut), reconstructs each channel, encodes each entry with \<open>to_u8\<close> and saves.
  The engine (spec section 4) owns a residual and the list of cuts; each cut is found by
  an alternating-maximisation search over sign vectors (CutFinder) whose products are
  computed tile by tile (BlockTiledMatVec).

  \<^bold>\<open>Theories.\<close>
  \<^item> \<open>Prelude\<close>: vectors and matrices as \<open>real list\<close> and \<open>real list list\<close>, dot products,
    sums, squared norms, sign vectors, \<open>usize = 64 word\<close>, \<open>u8 = 8 word\<close>; shared lemmas.
  \<^item> \<open>MatVec\<close> (BlockTiledMatVec, from the spec): \<open>tiles\<close> splits into blocks of the tile
    size, the last one shorter; \<open>mat_vec_tiled\<close>, \<open>vec_mat_tiled\<close>, \<open>rank1_update_tiled\<close>
    are proved equal to the direct products \<open>mat_vec\<close>, \<open>vec_mat\<close>, \<open>rank1_update\<close> and to
    their entry-wise sums, for every tile size (boundary tiles included).
  \<^item> \<open>CutFinder\<close> (from the spec): \<open>sign_of\<close>, \<open>signs\<close> (sign with a random tie-break),
    \<open>draw_signs\<close> (random initial \<open>v\<close>), \<open>alt_round\<close>, \<open>refine\<close>, \<open>find_cut\<close>, over any
    generator \<open>'g draw\<close>.  Lemmas: sign validity, each half-step is a best response, the
    gain \<open>u\<^sup>T R v\<close> never decreases across rounds and is non-negative, the weight is
    \<open>u\<^sup>T R v / (n m)\<close>, the result does not depend on the tile size, and the number of
    draws is at most \<open>m + max 1 cap (n + m)\<close> (counted with \<open>count_draw\<close>).
  \<^item> \<open>Engine\<close> (SignedCutEngine, from the spec): the state record \<open>sct\<close>, \<open>sct_new\<close>
    (\<open>SctHelper::new\<close>, with its configuration errors), \<open>sct_cut\<close> (\<open>cut\<close>),
    \<open>squared_norm_l2\<close>, \<open>expand\<close>; the reachable states \<open>sct_reach\<close> as an inductive
    predicate and the invariant \<open>sct_inv\<close> (well-formed residual, valid cuts, residual
    plus re-summed cuts equals the target) proved by rule induction; the exact norm
    identity \<open>|R'|\<^sup>2 = |R|\<^sup>2 - (u\<^sup>T R v)\<^sup>2/(n m)\<close>; the abstract contract \<open>greedy_seq\<close>
    and the simulation lemma \<open>sct_run_greedy\<close>.
  \<^item> \<open>Float\<close> (the float operations of \<open>main.rs\<close>): IEEE-754 \<open>binary64\<close>/\<open>binary32\<close>
    values \<open>fval\<close>; \<open>rnd\<close> rounds to nearest, ties to even (\<open>fp_exp\<close>, \<open>fp_ulp\<close>,
    \<open>round_even\<close>, executable through \<open>bitlen\<close>), \<open>fp_round\<close> adds overflow to infinity;
    \<open>fmul\<close>, \<open>fdiv\<close>, the casts \<open>f64_of_usize\<close>, \<open>f32_of_usize\<close>, \<open>usize_of_f64\<close> and the
    \<open>f32\<close> clamp, round and cast to \<open>u8\<close>.  Lemmas: error at most half an ulp, hence
    \<open>2\<^sup>-\<^sup>p|x| + 2\<^sup>e\<^sup>m\<^sup>i\<^sup>n\<^sup>-\<^sup>p\<close>; exact integers below \<open>2\<^sup>p\<close>; rounding odd and monotone; the
    floor of a rounded quotient of small naturals; three \<open>f64\<close> roundings of \<open>c X / Y\<close>
    stay within 1 of the exact quotient; and, as a check of the model against
    IEEE-754's definition, \<open>rnd\<close> returns a value of the format (\<open>is_float\<close>)
    closest to its argument and is idempotent.
  \<^item> \<open>Driver\<close> (\<open>main.rs\<close>): \<open>args\<close>, \<open>failure\<close> (every \<open>?\<close> and every panic as a value),
    \<open>to_u8\<close>, image loading \<open>channel_mat\<close>/\<open>load_channels\<close>, the budget \<open>nbits_per_color\<close>,
    \<open>nbits_per_cut\<close>, \<open>budget_width\<close>, \<open>normalization\<close>, the logged error \<open>log_err\<close>, the loop
    \<open>channel_loop\<close>/\<open>channel_run\<close>, \<open>output_image\<close> and \<open>angus_main\<close>; properties of
    \<open>to_u8\<close>, of the budget and of the debug normaliser.
  \<^item> \<open>Program\<close>: properties of the composition: the channel loop over the engine and
    \<open>angus_main\<close> as a whole, with end-to-end examples.

  \<^bold>\<open>Correspondence with the code.\<close>  \<open>angus_main\<close> follows \<open>fn main\<close> line by line; the
  argument parser, the decoder \<open>open\<close> and the encoder \<open>save\<close> are parameters (their
  failures are \<open>Inl\<close> values), the generator \<open>StdRng\<close> is the parameter \<open>draw\<close> with the
  seed state \<open>seed0\<close>, and the engine is the model of \<open>Engine\<close>.  \<open>img.dimensions()\<close>
  is \<open>(width, height)\<close> and is bound to \<open>(nrows, ncols)\<close>: a matrix row is an image
  column, consistently in loading and in \<open>ImageBuffer::from_fn\<close>.  Machine integers
  are words: \<open>W H 8\<close>, \<open>W + H + 32\<close> and \<open>255 * 255 * W * H\<close> wrap as in a release build.
  Float operations are IEEE-754 operations of \<open>Float\<close>: \<open>width\<close> is computed with three
  \<open>f64\<close> roundings, the normaliser is rounded to \<open>f32\<close>, and so are the quotient and the
  square root of the logged error.

  \<^bold>\<open>What is proved\<close> (claims C1 to C15, in \<open>Program\<close> and \<open>Driver\<close>):
  \<^item> the channel loop: the debug log is non-increasing and bounded by the target's
    error (C1); each channel returns the re-sum of exactly \<open>width\<close> valid sign cuts,
    equal to target minus residual (C2); it refines the abstract greedy decomposition
    \<open>greedy_seq\<close> (C3); it draws a bounded number of bits (C9);
  \<^item> the whole program: the outcome of \<open>main\<close> does not depend on the block size (C4);
    the saved image has the input's dimensions and the rounded reconstruction (C5);
    its failure paths (C7); a zero, negative, NaN or \<open>-\<infinity>\<close> rate gives a black
    image (C8); a grey image stays grey, since its three channels are one matrix
    compressed with the same seed (C15);
  \<^item> spec scenario B, generalised: a rank-one sign target with an odd column count is
    recovered exactly by one cut for every generator (C6);
  \<^item> the arithmetic: \<open>to_u8\<close> is characterised (C10); the budget in \<open>f64\<close>: exact for
    whole-number rates (C11), within one cut of the spec's formula for every rate (C12),
    and its silent treatment of invalid rates (C13); the \<open>f32\<close> normaliser is at least 1,
    exact below \<open>2\<^sup>2\<^sup>4\<close> and within \<open>2\<^sup>-\<^sup>2\<^sup>4\<close> otherwise (C14).
  The engine-level lemmas behind them (monotonicity, reconstruction, sign validity,
  the configuration errors, the unenforced target count) are in \<open>Engine\<close>.

  \<^bold>\<open>Bounds and fuel.\<close>  The search's loop is \<open>refine\<close> with fuel \<open>cap - 1\<close> after one
  compulsory round, and stops early when a round changes nothing; this is the spec's
  bounded loop with a round cap, so every function is total and the fuel is exactly the
  cap.  The per-channel loop runs \<open>width\<close> times, as the \<open>for\<close> loop does.  Examples use
  the cap 1, a \<open>3 \<times> 2\<close> target, and \<open>lcg_draw\<close>, a small linear congruential generator
  standing in for \<open>StdRng\<close>; no general lemma depends on it.  The budget theorems
  bound the numbers so that \<open>f64\<close> arithmetic is understood exactly: a whole-number rate
  with \<open>k \<cdot> 8 W H < 2\<^sup>5\<^sup>3\<close> keeps every integer exact (C11), and a quotient of at most
  \<open>2\<^sup>5\<^sup>0\<close> keeps the three relative errors of \<open>2\<^sup>-\<^sup>5\<^sup>3\<close> below one cut (C12); a larger
  quotient asks for more than \<open>2\<^sup>5\<^sup>0\<close> cuts, where the spacing of \<open>f64\<close> values itself
  approaches one cut.

  \<^bold>\<open>Not modelled.\<close>  The argument parser (clap), the image codec and the file system
  (the \<open>image\<close> crate), and \<open>StdRng\<close> are library code: \<open>main\<close> receives their results.
  The \<open>f32\<close> arithmetic inside the engine (code of \<open>cuts_v2\<close>) is over exact reals, so
  the engine's theorems hold up to its round-off, as the spec states its properties;
  every float operation of \<open>main.rs\<close> itself is rounded as IEEE-754 specifies.  The option \<open>threads\<close> is
  parsed and never used.  The code of \<open>cuts_v2\<close> is not in the repository; its engine is
  modelled from the spec.  The allocation of the three matrices at line 39 is not
  modelled: an image too large to allocate aborts there, so the wrap-around of the
  \<open>usize\<close> products of lines 48 and 59, which the model keeps, needs an image no run
  of \<open>main\<close> gets past line 39 with.  The concurrent channel engines that the spec
  allows (section 5) are not modelled: \<open>main\<close> runs the channels one after the other,
  and so does \<open>angus_main\<close>.
\<close>

end
